theory Spec2Isabelle
  imports Main "HOL-Library.AList"
begin

section \<open>The marker array client of ros3djs\<close>

text \<open>
  This theory embeds \<^verbatim>\<open>src/markers/MarkerArrayClient.js\<close>: a client that keeps a
  dictionary of displayed markers up to date from batches of marker messages, with an
  optional lifetime after which a marker is removed and an optional leading-edge debounce
  of the incoming batches.

  JavaScript runs each callback to completion, so every function of the client is a
  function from the state of the client to its new state. The calls the client makes on
  its collaborators are part of that state: the children of the root object, the nodes
  that were disposed, the pending timeouts, the emitted \<^verbatim>\<open>change\<close> events and the
  console warnings.

  Time is in milliseconds. A callback that reads the clock takes the time as a parameter,
  and all reads of one callback give that value: the update time written for a message
  and the time \<^verbatim>\<open>checkTime\<close> compares it with, a statement later, are the same. A timeout
  fires at the time it is due.
\<close>

subsection \<open>Messages and keys\<close>

text \<open>
  One element of \<^verbatim>\<open>arrayMessage.markers\<close>. The client reads \<^verbatim>\<open>ns\<close>, \<^verbatim>\<open>id\<close>,
  \<^verbatim>\<open>action\<close> and \<^verbatim>\<open>header.frame_id\<close>; everything else is passed on to the marker
  object and is the opaque \<open>payload\<close> here. The field \<^verbatim>\<open>id\<close> is called \<open>id_num\<close>,
  since \<open>id\<close> is the identity function of HOL.
\<close>

record message =
  ns :: string
  id_num :: int
  action :: int
  frame_id :: string
  payload :: nat

text \<open>
  \<^verbatim>\<open>message.ns + message.id\<close> concatenates the namespace with the decimal rendering
  of the number. The id of a marker message is a 32-bit integer, which JavaScript prints
  in plain decimal notation with a leading minus sign when negative.
\<close>

definition digit :: "nat \<Rightarrow> char" where
  "digit d = ''0123456789'' ! d"

function show_nat :: "nat \<Rightarrow> string" where
  "show_nat n = (if n < 10 then [digit n] else show_nat (n div 10) @ [digit (n mod 10)])"
  by pat_completeness auto
termination
  by (relation "measure (\<lambda>n. n)") auto

declare show_nat.simps [simp del]

definition show_int :: "int \<Rightarrow> string" where
  "show_int i = (if i < 0 then CHR ''-'' # show_nat (nat (- i)) else show_nat (nat i))"

definition key_of :: "message \<Rightarrow> string" where
  "key_of m = ns m @ show_int (id_num m)"

subsection \<open>The state of the client\<close>

text \<open>
  A \<^verbatim>\<open>ROS3D.SceneNode\<close>. Every \<^verbatim>\<open>new\<close> yields a different object; \<open>nid\<close> is that
  identity. \<open>object\<close> is the state of the \<^verbatim>\<open>ROS3D.Marker\<close> the node holds as
  \<^verbatim>\<open>children[0]\<close>.
\<close>

record 'v scene_node =
  nid :: nat
  frameID :: string
  object :: 'v

datatype diagnostic = DeprecatedAction | UnknownAction int

text \<open>
  The fields of the client, and what it has done to its collaborators:
  \<^item> \<open>lifetime\<close>, \<open>debounceMs\<close>: the options, durations in milliseconds, 0 when absent;
  \<^item> \<open>debounceTimer\<close>: \<open>None\<close> for \<^verbatim>\<open>null\<close>, otherwise the pending timeout that will
    reset the field, given by the time at which it is due;
  \<^item> \<open>markers\<close>: the object \<^verbatim>\<open>this.markers\<close>, an association list in insertion order
    (the order in which \<^verbatim>\<open>for ... in\<close> visits the keys only decides the order of the
    removals of a \<^verbatim>\<open>DELETE ALL\<close>);
  \<^item> \<open>updatedTime\<close>: the object \<^verbatim>\<open>this.updatedTime\<close>;
  \<^item> \<open>rootObject\<close>: the children of \<^verbatim>\<open>this.rootObject\<close>, by identity;
  \<^item> \<open>disposed\<close>: the nodes whose frame subscription was cancelled and whose children
    were disposed;
  \<^item> \<open>timeouts\<close>: the pending \<^verbatim>\<open>setTimeout\<close> calls of \<^verbatim>\<open>checkTime\<close>, each with the
    time at which it is due and the name it will check;
  \<^item> \<open>changes\<close>: the number of \<^verbatim>\<open>change\<close> events emitted so far;
  \<^item> \<open>seen\<close>: for each of these events in turn, the registry as it was when the event
    was emitted, which is what a listener finds in \<^verbatim>\<open>this.markers\<close> when it is called;
  \<^item> \<open>warnings\<close>: the console warnings so far;
  \<^item> \<open>nextNode\<close>: the identity the next new scene node gets.
\<close>

record 'v client =
  lifetime :: nat
  debounceMs :: nat
  debounceTimer :: "int option"
  markers :: "(string \<times> 'v scene_node) list"
  updatedTime :: "string \<rightharpoonup> int"
  rootObject :: "nat list"
  disposed :: "nat list"
  timeouts :: "(int \<times> string) list"
  changes :: nat
  seen :: "(string \<times> 'v scene_node) list list"
  warnings :: "diagnostic list"
  nextNode :: nat

text \<open>The constructor, up to the subscription.\<close>

definition MarkerArrayClient :: "nat \<Rightarrow> nat \<Rightarrow> 'v client" where
  "MarkerArrayClient lifetime_opt debounce_opt =
     \<lparr> lifetime = lifetime_opt, debounceMs = debounce_opt, debounceTimer = None,
       markers = [], updatedTime = Map.empty, rootObject = [], disposed = [],
       timeouts = [], changes = 0, seen = [], warnings = [], nextNode = 0 \<rparr>"

subsection \<open>The operations\<close>

text \<open>
  \<^verbatim>\<open>this.emit('change')\<close> calls the listeners at once, so they see the registry of this
  moment.
\<close>

definition emit :: "'v client \<Rightarrow> 'v client" where
  "emit c = c\<lparr>changes := Suc (changes c), seen := seen c @ [markers c]\<rparr>"

definition warn :: "diagnostic \<Rightarrow> 'v client \<Rightarrow> 'v client" where
  "warn d c = c\<lparr>warnings := warnings c @ [d]\<rparr>"

text \<open>
  \<^verbatim>\<open>removeMarker\<close>: forget the update time of the key (only when a lifetime is set),
  then, if the key has a node, cancel its frame subscription, take it from the root
  object, dispose its children and delete the key.
\<close>

definition removeMarker :: "string \<Rightarrow> 'v client \<Rightarrow> 'v client" where
  "removeMarker key c =
     (let c1 = (if lifetime c \<noteq> 0 \<and> key \<in> dom (updatedTime c)
                then c\<lparr>updatedTime := (updatedTime c)(key := None)\<rparr> else c)
      in case map_of (markers c1) key of
           None \<Rightarrow> c1
         | Some oldNode \<Rightarrow>
             c1\<lparr>rootObject := remove1 (nid oldNode) (rootObject c1),
                disposed := disposed c1 @ [nid oldNode],
                markers := AList.delete key (markers c1)\<rparr>)"

text \<open>
  The test of \<^verbatim>\<open>checkTime\<close>, \<^verbatim>\<open>curTime - this.updatedTime[name] > this.lifetime\<close>.
  Without an entry for the name the difference is \<^verbatim>\<open>NaN\<close> and the comparison is false.
\<close>

definition expired :: "int \<Rightarrow> int option \<Rightarrow> nat \<Rightarrow> bool" where
  "expired curTime upd life =
     (case upd of None \<Rightarrow> False | Some u \<Rightarrow> curTime - u > int life)"

text \<open>
  \<^verbatim>\<open>checkTime\<close>, with the value of the clock it reads: either remove the marker and
  emit \<^verbatim>\<open>change\<close>, or ask to be called again in 100 ms.
\<close>

definition checkTime :: "int \<Rightarrow> string \<Rightarrow> 'v client \<Rightarrow> 'v client" where
  "checkTime curTime name c =
     (if expired curTime (updatedTime c name) (lifetime c)
      then emit (removeMarker name c)
      else c\<lparr>timeouts := timeouts c @ [(curTime + 100, name)]\<rparr>)"

text \<open>
  The \<^verbatim>\<open>"ADD"\<close> branch: a new marker in a new scene node, stored under the key and
  added to the root object. The constructor of \<^verbatim>\<open>ROS3D.Marker\<close> is not part of this
  file of the repository and is the parameter \<open>mk\<close>.
\<close>

definition addMarker :: "(message \<Rightarrow> 'v) \<Rightarrow> string \<Rightarrow> message \<Rightarrow> 'v client \<Rightarrow> 'v client" where
  "addMarker mk key msg c =
     (let node = \<lparr>nid = nextNode c, frameID = frame_id msg, object = mk msg\<rparr>
      in c\<lparr>markers := AList.update key node (markers c),
           rootObject := rootObject c @ [nid node],
           nextNode := Suc (nextNode c)\<rparr>)"

text \<open>
  The first statement of the body of the \<^verbatim>\<open>forEach\<close> of \<^verbatim>\<open>processMessage\<close>, which
  runs for every message whatever its action: when a lifetime is set, the key gets the
  current time as its update time and \<^verbatim>\<open>checkTime\<close> is called. \<open>now\<close> is the value of
  the clock during the callback.
\<close>

definition touch :: "int \<Rightarrow> string \<Rightarrow> 'v client \<Rightarrow> 'v client" where
  "touch now key c =
     (if lifetime c \<noteq> 0
      then checkTime now key (c\<lparr>updatedTime := (updatedTime c)(key \<mapsto> now)\<rparr>)
      else c)"

text \<open>
  The body of the \<^verbatim>\<open>forEach\<close>, for one message. \<^verbatim>\<open>update\<close> of \<^verbatim>\<open>ROS3D.Marker\<close> is
  the parameter \<open>upd\<close>: \<open>upd v msg = Some v'\<close> when the call returns true and leaves the
  marker in state \<open>v'\<close>, \<open>None\<close> when it returns false.
\<close>

definition forEach_body ::
  "(message \<Rightarrow> 'v) \<Rightarrow> ('v \<Rightarrow> message \<Rightarrow> 'v option) \<Rightarrow> int \<Rightarrow> message \<Rightarrow> 'v client \<Rightarrow> 'v client" where
  "forEach_body mk upd now msg c =
     (let key = key_of msg;
          c1 = touch now key c
      in if action msg = 0 then
           (case map_of (markers c1) key of
              None \<Rightarrow> addMarker mk key msg c1
            | Some node \<Rightarrow>
                (case upd (object node) msg of
                   Some v' \<Rightarrow> c1\<lparr>markers := AList.update key (node\<lparr>object := v'\<rparr>) (markers c1)\<rparr>
                 | None \<Rightarrow> addMarker mk key msg (removeMarker key c1)))
         else if action msg = 1 then warn DeprecatedAction c1
         else if action msg = 2 then removeMarker key c1
         else if action msg = 3 then
           (fold removeMarker (map fst (markers c1)) c1)\<lparr>markers := []\<rparr>
         else warn (UnknownAction (action msg)) c1)"

text \<open>\<^verbatim>\<open>processMessage\<close>: every message of the batch in array order, then one \<^verbatim>\<open>change\<close>.\<close>

definition processMessage ::
  "(message \<Rightarrow> 'v) \<Rightarrow> ('v \<Rightarrow> message \<Rightarrow> 'v option) \<Rightarrow> int \<Rightarrow> message list \<Rightarrow> 'v client \<Rightarrow> 'v client" where
  "processMessage mk upd now arrayMessage c = emit (fold (forEach_body mk upd now) arrayMessage c)"

text \<open>
  \<^verbatim>\<open>debouncedProcessMessage\<close>: nothing while the timer is set; otherwise the batch is
  processed and a timeout is started that resets the timer after \<^verbatim>\<open>debounceMs\<close>.
\<close>

definition debouncedProcessMessage ::
  "(message \<Rightarrow> 'v) \<Rightarrow> ('v \<Rightarrow> message \<Rightarrow> 'v option) \<Rightarrow> int \<Rightarrow> message list \<Rightarrow> 'v client \<Rightarrow> 'v client" where
  "debouncedProcessMessage mk upd now arrayMessage c =
     (if debounceTimer c \<noteq> None then c
      else (processMessage mk upd now arrayMessage c)
             \<lparr>debounceTimer := Some (now + int (debounceMs c))\<rparr>)"

text \<open>The callback the constructor subscribes to the topic.\<close>

definition boundProcessMessage ::
  "(message \<Rightarrow> 'v) \<Rightarrow> ('v \<Rightarrow> message \<Rightarrow> 'v option) \<Rightarrow> int \<Rightarrow> message list \<Rightarrow> 'v client \<Rightarrow> 'v client" where
  "boundProcessMessage mk upd now arrayMessage c =
     (if debounceMs c > 0 then debouncedProcessMessage mk upd now arrayMessage c
      else processMessage mk upd now arrayMessage c)"

subsection \<open>Timeouts\<close>

text \<open>
  The pending timeout that fires next among those due by time \<open>T\<close>: the one with the
  earliest due time, the first that was set among equals.
\<close>

fun next_due :: "int \<Rightarrow> (int \<times> string) list \<Rightarrow> (int \<times> string) option" where
  "next_due T [] = None"
| "next_due T ((d, k) # ts) =
     (case next_due T ts of
        None \<Rightarrow> if d \<le> T then Some (d, k) else None
      | Some (d', k') \<Rightarrow> if d \<le> d' then Some (d, k) else Some (d', k'))"

text \<open>One timeout fires at time \<open>now\<close>: it leaves the pending ones and \<^verbatim>\<open>checkTime\<close> runs.\<close>

definition fireTimeout :: "int \<Rightarrow> int \<times> string \<Rightarrow> 'v client \<Rightarrow> 'v client" where
  "fireTimeout now t c = checkTime now (snd t) (c\<lparr>timeouts := remove1 t (timeouts c)\<rparr>)"

text \<open>
  The event loop up to time \<open>T\<close> with punctual timers: every pending \<^verbatim>\<open>checkTime\<close> that
  is due by \<open>T\<close> fires at the time it is due, the earliest first, together with those it
  starts in turn.
\<close>

function runTimeouts :: "int \<Rightarrow> 'v client \<Rightarrow> 'v client" where
  "runTimeouts T c =
     (case next_due T (timeouts c) of
        None \<Rightarrow> c
      | Some t \<Rightarrow> runTimeouts T (fireTimeout (fst t) t c))"
  by pat_completeness auto

text \<open>
  The loop ends: a timeout that fires is due by \<open>T\<close>, and the one it starts is due
  100 ms later, so the total time by which the pending timeouts precede \<open>T + 1\<close> shrinks.
\<close>

definition slack :: "int \<Rightarrow> (int \<times> string) list \<Rightarrow> nat" where
  "slack T ts = sum_list (map (\<lambda>t. nat (T + 1 - fst t)) ts)"

lemma next_due_SomeD:
  "next_due T ts = Some t \<Longrightarrow> t \<in> set ts \<and> fst t \<le> T"
  by (induction ts arbitrary: t) (fastforce split: option.splits if_splits)+

lemma timeouts_removeMarker [simp]: "timeouts (removeMarker k c) = timeouts c"
  by (simp add: removeMarker_def Let_def split: option.splits)

lemma timeouts_checkTime:
  "timeouts (checkTime now k c) =
     (if expired now (updatedTime c k) (lifetime c) then timeouts c
      else timeouts c @ [(now + 100, k)])"
  by (simp add: checkTime_def emit_def)

lemma slack_remove1:
  "t \<in> set ts \<Longrightarrow> slack T ts = nat (T + 1 - fst t) + slack T (remove1 t ts)"
  unfolding slack_def by (rule sum_list_map_remove1)

lemma slack_fire:
  assumes "next_due T (timeouts c) = Some t"
  shows "slack T (timeouts (fireTimeout (fst t) t c)) < slack T (timeouts c)"
proof -
  from next_due_SomeD [OF assms]
  have mem: "t \<in> set (timeouts c)" and le: "fst t \<le> T" by auto
  have "slack T (timeouts (fireTimeout (fst t) t c))
          \<le> slack T (remove1 t (timeouts c)) + nat (T + 1 - (fst t + 100))"
    by (simp add: fireTimeout_def timeouts_checkTime slack_def)
  also have "\<dots> < slack T (remove1 t (timeouts c)) + nat (T + 1 - fst t)"
    using le by simp
  finally show ?thesis using slack_remove1 [OF mem, of T] by simp
qed

termination runTimeouts
  by (relation "measure (\<lambda>(T, c). slack T (timeouts c))") (auto simp: slack_fire)

declare runTimeouts.simps [simp del]

text \<open>
  The timeout started by \<^verbatim>\<open>debouncedProcessMessage\<close> fires once time \<open>T\<close> has reached
  the time it is due: its callback sets \<^verbatim>\<open>debounceTimer\<close> to \<^verbatim>\<open>null\<close>.
\<close>

definition fireDebounce :: "int \<Rightarrow> 'v client \<Rightarrow> 'v client" where
  "fireDebounce T c =
     (case debounceTimer c of
        None \<Rightarrow> c
      | Some d \<Rightarrow> if d \<le> T then c\<lparr>debounceTimer := None\<rparr> else c)"

text \<open>
  Time passes until \<open>T\<close>: the timeout of the debounce fires if it is due, and the
  pending checks run. The two kinds of callback touch different fields, so their relative
  order does not matter.
\<close>

definition advance :: "int \<Rightarrow> 'v client \<Rightarrow> 'v client" where
  "advance T c = runTimeouts T (fireDebounce T c)"

text \<open>
  The topic delivers a batch at time \<open>t\<close>: the timeouts due by then have fired, and the
  subscribed callback runs. \<open>deliver_all\<close> is a sequence of deliveries, each with its
  time of arrival.
\<close>

definition deliver ::
  "(message \<Rightarrow> 'v) \<Rightarrow> ('v \<Rightarrow> message \<Rightarrow> 'v option) \<Rightarrow> int \<times> message list \<Rightarrow> 'v client \<Rightarrow> 'v client" where
  "deliver mk upd ev c = boundProcessMessage mk upd (fst ev) (snd ev) (advance (fst ev) c)"

definition deliver_all ::
  "(message \<Rightarrow> 'v) \<Rightarrow> ('v \<Rightarrow> message \<Rightarrow> 'v option) \<Rightarrow> (int \<times> message list) list \<Rightarrow> 'v client \<Rightarrow> 'v client" where
  "deliver_all mk upd evs c = fold (deliver mk upd) evs c"

subsection \<open>The key set and its specification\<close>

text \<open>The keys of the registry, \<^verbatim>\<open>Object.keys(this.markers)\<close>.\<close>

definition keys :: "'v client \<Rightarrow> string set" where
  "keys c = fst ` set (markers c)"

text \<open>
  The specification of the key set, in its own words: replaying the messages of a batch in
  order, an \<^verbatim>\<open>UPSERT\<close> (0) puts the key of the message in the set, a \<^verbatim>\<open>DELETE\<close> (2)
  takes it out, a \<^verbatim>\<open>DELETE_ALL\<close> (3) empties the set, and any other message leaves it.
\<close>

definition replay_step :: "message \<Rightarrow> string set \<Rightarrow> string set" where
  "replay_step msg K =
     (if action msg = 0 then insert (key_of msg) K
      else if action msg = 2 then K - {key_of msg}
      else if action msg = 3 then {}
      else K)"

definition replay :: "message list \<Rightarrow> string set \<Rightarrow> string set" where
  "replay msgs K = fold replay_step msgs K"

subsection \<open>Keys and namespaces\<close>

text \<open>
  The characters a rendered id is made of, and the namespaces that do not end in one of
  them: after such a namespace the id can be read back from the key.
\<close>

definition numeric :: "char \<Rightarrow> bool" where
  "numeric ch = (ch \<in> set ''0123456789-'')"

definition plain :: "string \<Rightarrow> bool" where
  "plain s = (s = [] \<or> \<not> numeric (last s))"

text \<open>Reading a rendered natural number back, digit by digit.\<close>

definition read_nat :: "string \<Rightarrow> nat" where
  "read_nat s = foldl (\<lambda>a ch. 10 * a + (of_char ch - 48)) 0 s"

subsection \<open>Concrete inputs\<close>

text \<open>
  Messages and clients on which the theorems below are evaluated. The marker objects of
  these clients are natural numbers: a new marker holds the payload of its message, and
  \<open>refresh\<close> is an \<^verbatim>\<open>update\<close> that always succeeds and takes the payload of the new
  message, \<open>reject\<close> one that always fails.
\<close>

definition deprecated_a1 :: message where
  "deprecated_a1 = \<lparr>ns = ''a'', id_num = 1, action = 1, frame_id = ''map'', payload = 0\<rparr>"

definition upsert_a_11 :: message where
  "upsert_a_11 = \<lparr>ns = ''a'', id_num = 11, action = 0, frame_id = ''map'', payload = 7\<rparr>"

definition upsert_a_12 :: message where
  "upsert_a_12 = \<lparr>ns = ''a'', id_num = 12, action = 0, frame_id = ''map'', payload = 8\<rparr>"

definition delete_a1_1 :: message where
  "delete_a1_1 = \<lparr>ns = ''a1'', id_num = 1, action = 2, frame_id = ''map'', payload = 0\<rparr>"

definition delete_all_msg :: message where
  "delete_all_msg = \<lparr>ns = [], id_num = 0, action = 3, frame_id = ''map'', payload = 0\<rparr>"

definition refresh :: "nat \<Rightarrow> message \<Rightarrow> nat option" where
  "refresh v m = Some (payload m)"

definition reject :: "nat \<Rightarrow> message \<Rightarrow> nat option" where
  "reject v m = None"

text \<open>A new client with the given lifetime after one \<^verbatim>\<open>UPSERT\<close> of \<open>(a, 11)\<close> at time 5.\<close>

definition client_a11 :: "nat \<Rightarrow> nat client" where
  "client_a11 life = forEach_body payload refresh 5 upsert_a_11 (MarkerArrayClient life 0)"

definition deprecated_a_11 :: message where
  "deprecated_a_11 = \<lparr>ns = ''a'', id_num = 11, action = 1, frame_id = ''map'', payload = 0\<rparr>"

text \<open>A new client with a debounce of 50 ms and no lifetime.\<close>

definition debounced_client :: "nat client" where
  "debounced_client = MarkerArrayClient 0 50"

text \<open>
  A new client with a lifetime of 150 ms, after an \<^verbatim>\<open>UPSERT\<close> of \<open>(a, 11)\<close> at time 0 and
  the same \<^verbatim>\<open>UPSERT\<close> at time 10, whose update in place is rejected: the marker is
  destroyed and created again.
\<close>

definition recreated_a11 :: "nat client" where
  "recreated_a11 =
     processMessage payload reject 10 [upsert_a_11]
       (processMessage payload reject 0 [upsert_a_11] (MarkerArrayClient 150 0))"

subsection \<open>Expiry checks, batches and time\<close>

text \<open>
  The invariant of the expiry checks: every key of the registry has a pending check.
  \<open>checks_for\<close> counts the pending checks of a key.
\<close>

definition has_check :: "'v client \<Rightarrow> bool" where
  "has_check c = (\<forall>k \<in> keys c. k \<in> snd ` set (timeouts c))"

definition checks_for :: "string \<Rightarrow> 'v client \<Rightarrow> nat" where
  "checks_for k c = length (filter (\<lambda>t. snd t = k) (timeouts c))"

text \<open>
  A pending check for key \<open>k\<close> is due by time \<open>D\<close>. A key is \<open>tracked\<close> from its update at
  time \<open>t0\<close> when it either has been evicted, or still has that update time and a check
  pending that is due within lifetime + 100 ms of it.
\<close>

definition pending_until :: "int \<Rightarrow> string \<Rightarrow> 'v client \<Rightarrow> bool" where
  "pending_until D k c = (\<exists>t \<in> set (timeouts c). snd t = k \<and> fst t \<le> D)"

definition tracked :: "int \<Rightarrow> string \<Rightarrow> 'v client \<Rightarrow> bool" where
  "tracked t0 k c =
     ((k \<notin> keys c \<and> updatedTime c k = None) \<or>
      (updatedTime c k = Some t0 \<and> pending_until (t0 + int (lifetime c) + 100) k c))"

text \<open>
  The keys whose update time was deleted between two states of the client; while only
  timeouts run, these are the keys that were evicted.
\<close>

definition evictions :: "'v client \<Rightarrow> 'v client \<Rightarrow> string set" where
  "evictions c c' = dom (updatedTime c) - dom (updatedTime c')"

text \<open>
  Whether the subscribed callback passes a batch on to \<^verbatim>\<open>processMessage\<close> in this state
  (the test of \<^verbatim>\<open>debouncedProcessMessage\<close>), and the number of batches of a sequence of
  deliveries that are passed on.
\<close>

definition forwards :: "'v client \<Rightarrow> bool" where
  "forwards c = (debounceMs c = 0 \<or> debounceTimer c = None)"

fun applied_batches ::
  "(message \<Rightarrow> 'v) \<Rightarrow> ('v \<Rightarrow> message \<Rightarrow> 'v option) \<Rightarrow> (int \<times> message list) list \<Rightarrow> 'v client \<Rightarrow> nat" where
  "applied_batches mk upd [] c = 0"
| "applied_batches mk upd (ev # evs) c =
     (if forwards (advance (fst ev) c) then 1 else 0) + applied_batches mk upd evs (deliver mk upd ev c)"

text \<open>
  Arrival times each more than \<open>W\<close> after the one before; and: the window of the
  debounce, if one was opened, has closed by time \<open>t\<close>.
\<close>

fun spaced :: "nat \<Rightarrow> int list \<Rightarrow> bool" where
  "spaced W [] = True"
| "spaced W [t] = True"
| "spaced W (t # t' # ts) = (t + int W < t' \<and> spaced W (t' # ts))"

definition closed_by :: "int \<Rightarrow> 'v client \<Rightarrow> bool" where
  "closed_by t c = (case debounceTimer c of None \<Rightarrow> True | Some d \<Rightarrow> d \<le> t)"

text \<open>Deliveries without a message for key \<open>k\<close> and without a \<^verbatim>\<open>DELETE_ALL\<close>.\<close>

definition other_messages :: "string \<Rightarrow> (int \<times> message list) list \<Rightarrow> bool" where
  "other_messages k evs = (\<forall>ev \<in> set evs. \<forall>m \<in> set (snd ev). key_of m \<noteq> k \<and> action m \<noteq> 3)"

text \<open>
  What the states a client reaches have in common: a key has one entry in the registry,
  a node is a child of the root object once, and the identities in use are below the next
  one.
\<close>

definition well_formed :: "'v client \<Rightarrow> bool" where
  "well_formed c =
     (distinct (map fst (markers c)) \<and> distinct (rootObject c) \<and>
      list_all (\<lambda>n. n < nextNode c) (rootObject c))"

section \<open>Properties\<close>

subsection \<open>What each operation does to each field\<close>

lemma map_of_None_delete: "map_of al k = None \<Longrightarrow> AList.delete k al = al"
  by (simp add: map_of_eq_None_iff)

lemma markers_removeMarker: "markers (removeMarker k c) = AList.delete k (markers c)"
  by (simp add: removeMarker_def Let_def map_of_None_delete split: option.splits)

lemma updatedTime_removeMarker:
  "updatedTime (removeMarker k c) =
     (if lifetime c \<noteq> 0 then (updatedTime c)(k := None) else updatedTime c)"
  by (auto simp: removeMarker_def Let_def domIff split: option.splits)

lemma rootObject_removeMarker:
  "rootObject (removeMarker k c) =
     (case map_of (markers c) k of None \<Rightarrow> rootObject c
      | Some n \<Rightarrow> remove1 (nid n) (rootObject c))"
  by (simp add: removeMarker_def Let_def split: option.splits)

lemma disposed_removeMarker:
  "disposed (removeMarker k c) =
     (case map_of (markers c) k of None \<Rightarrow> disposed c
      | Some n \<Rightarrow> disposed c @ [nid n])"
  by (simp add: removeMarker_def Let_def split: option.splits)

lemma frame_removeMarker [simp]:
  "lifetime (removeMarker k c) = lifetime c"
  "debounceMs (removeMarker k c) = debounceMs c"
  "debounceTimer (removeMarker k c) = debounceTimer c"
  "changes (removeMarker k c) = changes c"
  "seen (removeMarker k c) = seen c"
  "warnings (removeMarker k c) = warnings c"
  "nextNode (removeMarker k c) = nextNode c"
  by (simp_all add: removeMarker_def Let_def split: option.splits)

text \<open>
  Within one callback the update time just written equals the time \<^verbatim>\<open>checkTime\<close> reads,
  so the check made by \<open>touch\<close> always asks to be called again.
\<close>

lemma touch_eq:
  "touch now key c =
     (if lifetime c \<noteq> 0
      then c\<lparr>updatedTime := (updatedTime c)(key \<mapsto> now),
             timeouts := timeouts c @ [(now + 100, key)]\<rparr>
      else c)"
  by (simp add: touch_def checkTime_def expired_def)

lemma frame_touch [simp]:
  "lifetime (touch now k c) = lifetime c"
  "debounceMs (touch now k c) = debounceMs c"
  "debounceTimer (touch now k c) = debounceTimer c"
  "markers (touch now k c) = markers c"
  "rootObject (touch now k c) = rootObject c"
  "disposed (touch now k c) = disposed c"
  "changes (touch now k c) = changes c"
  "seen (touch now k c) = seen c"
  "warnings (touch now k c) = warnings c"
  "nextNode (touch now k c) = nextNode c"
  by (simp_all add: touch_eq)

subsection \<open>Change events of a batch\<close>

lemma changes_fold_removeMarker: "changes (fold removeMarker ks c) = changes c"
  by (induction ks arbitrary: c) simp_all

lemma changes_forEach_body: "changes (forEach_body mk upd now msg c) = changes c"
  by (simp add: forEach_body_def Let_def addMarker_def warn_def
      changes_fold_removeMarker split: option.splits)

lemma changes_fold_forEach: "changes (fold (forEach_body mk upd now) msgs c) = changes c"
  by (induction msgs arbitrary: c) (simp_all add: changes_forEach_body)

lemma seen_fold_removeMarker: "seen (fold removeMarker ks c) = seen c"
  by (induction ks arbitrary: c) simp_all

lemma seen_forEach_body: "seen (forEach_body mk upd now msg c) = seen c"
  by (simp add: forEach_body_def Let_def addMarker_def warn_def
      seen_fold_removeMarker split: option.splits)

lemma seen_fold_forEach: "seen (fold (forEach_body mk upd now) msgs c) = seen c"
  by (induction msgs arbitrary: c) (simp_all add: seen_forEach_body)

text \<open>
  Claim C6. Whatever the messages of a batch are, and also when there are none,
  \<^verbatim>\<open>processMessage\<close> leaves the client as the messages applied in array order leave it,
  with exactly one \<^verbatim>\<open>change\<close> event more. No event is emitted while the messages are
  applied, and the one event is emitted once all of them have been: its listeners are shown
  the registry that the whole batch leaves. One event per batch, not one per message.
\<close>

theorem processMessage_one_change:
  "processMessage mk upd now msgs c =
     (fold (forEach_body mk upd now) msgs c)
       \<lparr>changes := changes c + 1,
        seen := seen c @ [markers (fold (forEach_body mk upd now) msgs c)]\<rparr> \<and>
   changes (fold (forEach_body mk upd now) msgs c) = changes c \<and>
   seen (fold (forEach_body mk upd now) msgs c) = seen c \<and>
   changes (processMessage mk upd now msgs c) = changes c + 1 \<and>
   seen (processMessage mk upd now msgs c) = seen c @ [markers (processMessage mk upd now msgs c)]"
  by (simp add: processMessage_def emit_def changes_fold_forEach seen_fold_forEach)

subsection \<open>The key set of a batch\<close>

lemma keys_forEach_body: "keys (forEach_body mk upd now msg c) = replay_step msg (keys c)"
proof -
  let ?k = "key_of msg"
  have del: "fst ` set (AList.delete ?k (markers c)) = fst ` set (markers c) - {?k}"
    by (auto simp: AList.delete_eq)
  consider "action msg = 0" | "action msg = 1" | "action msg = 2" | "action msg = 3"
    | "action msg \<notin> {0, 1, 2, 3}" by auto
  then show ?thesis unfolding keys_def
  proof cases
    case 1
    then show "fst ` set (markers (forEach_body mk upd now msg c))
        = replay_step msg (fst ` set (markers c))"
      by (auto simp: forEach_body_def Let_def addMarker_def replay_step_def dom_update
          markers_removeMarker del split: option.splits dest: map_of_SomeD)
  next
    case 2
    then show "fst ` set (markers (forEach_body mk upd now msg c))
        = replay_step msg (fst ` set (markers c))"
      by (simp add: forEach_body_def Let_def warn_def replay_step_def)
  next
    case 3
    then show "fst ` set (markers (forEach_body mk upd now msg c))
        = replay_step msg (fst ` set (markers c))"
      by (simp add: forEach_body_def Let_def replay_step_def markers_removeMarker del)
  next
    case 4
    then show "fst ` set (markers (forEach_body mk upd now msg c))
        = replay_step msg (fst ` set (markers c))"
      by (simp add: forEach_body_def Let_def replay_step_def)
  next
    case 5
    then show "fst ` set (markers (forEach_body mk upd now msg c))
        = replay_step msg (fst ` set (markers c))"
      by (simp add: forEach_body_def Let_def warn_def replay_step_def)
  qed
qed

lemma keys_fold_forEach:
  "keys (fold (forEach_body mk upd now) msgs c) = replay msgs (keys c)"
  by (induction msgs arbitrary: c) (simp_all add: replay_def keys_forEach_body)

lemma keys_emit [simp]: "keys (emit c) = keys c"
  by (simp add: keys_def emit_def)

lemma keys_MarkerArrayClient [simp]: "keys (MarkerArrayClient l d) = {}"
  by (simp add: keys_def MarkerArrayClient_def)

text \<open>
  Claim C1. After a batch has been applied, the keys of the registry are those obtained by
  replaying the \<^verbatim>\<open>UPSERT\<close>, \<^verbatim>\<open>DELETE\<close> and \<^verbatim>\<open>DELETE_ALL\<close> messages of the batch, in
  array order, on the keys the registry had before; for the first batch of a new client
  that is the replay on the empty set.
\<close>

theorem processMessage_keys_replay:
  "keys (processMessage mk upd now msgs c) = replay msgs (keys c) \<and>
   keys (processMessage mk upd now msgs (MarkerArrayClient l d)) = replay msgs {}"
  by (simp add: processMessage_def keys_fold_forEach)

subsection \<open>The branches of the body\<close>

lemma frame_fold_removeMarker [simp]:
  "lifetime (fold removeMarker ks c) = lifetime c"
  "debounceMs (fold removeMarker ks c) = debounceMs c"
  "debounceTimer (fold removeMarker ks c) = debounceTimer c"
  "timeouts (fold removeMarker ks c) = timeouts c"
  "warnings (fold removeMarker ks c) = warnings c"
  "nextNode (fold removeMarker ks c) = nextNode c"
  by (induction ks arbitrary: c) simp_all

lemma frame_forEach_body [simp]:
  "lifetime (forEach_body mk upd now msg c) = lifetime c"
  "debounceMs (forEach_body mk upd now msg c) = debounceMs c"
  "debounceTimer (forEach_body mk upd now msg c) = debounceTimer c"
  by (simp_all add: forEach_body_def Let_def addMarker_def warn_def split: option.splits)

lemma forEach_body_add:
  "action msg = 0 \<Longrightarrow> map_of (markers c) (key_of msg) = None \<Longrightarrow>
   forEach_body mk upd now msg c = addMarker mk (key_of msg) msg (touch now (key_of msg) c)"
  by (simp add: forEach_body_def Let_def)

lemma forEach_body_modify:
  "action msg = 0 \<Longrightarrow> map_of (markers c) (key_of msg) = Some node \<Longrightarrow>
   upd (object node) msg = Some v' \<Longrightarrow>
   forEach_body mk upd now msg c =
     (touch now (key_of msg) c)
       \<lparr>markers := AList.update (key_of msg) (node\<lparr>object := v'\<rparr>) (markers c)\<rparr>"
  by (simp add: forEach_body_def Let_def)

lemma forEach_body_recreate:
  "action msg = 0 \<Longrightarrow> map_of (markers c) (key_of msg) = Some node \<Longrightarrow>
   upd (object node) msg = None \<Longrightarrow>
   forEach_body mk upd now msg c =
     addMarker mk (key_of msg) msg (removeMarker (key_of msg) (touch now (key_of msg) c))"
  by (simp add: forEach_body_def Let_def)

lemma forEach_body_delete:
  "action msg = 2 \<Longrightarrow>
   forEach_body mk upd now msg c = removeMarker (key_of msg) (touch now (key_of msg) c)"
  by (simp add: forEach_body_def Let_def)

lemma forEach_body_delete_all:
  "action msg = 3 \<Longrightarrow>
   forEach_body mk upd now msg c =
     (fold removeMarker (map fst (markers c)) (touch now (key_of msg) c))\<lparr>markers := []\<rparr>"
  by (simp add: forEach_body_def Let_def)

lemma forEach_body_skip:
  "action msg \<noteq> 0 \<Longrightarrow> action msg \<noteq> 2 \<Longrightarrow> action msg \<noteq> 3 \<Longrightarrow>
   forEach_body mk upd now msg c =
     warn (if action msg = 1 then DeprecatedAction else UnknownAction (action msg))
       (touch now (key_of msg) c)"
  by (simp add: forEach_body_def Let_def)

subsection \<open>Concrete keys\<close>

lemma key_deprecated_a1: "key_of deprecated_a1 = ''a1''"
  by (simp add: key_of_def deprecated_a1_def show_int_def show_nat.simps digit_def)

lemma key_upsert_a_11: "key_of upsert_a_11 = ''a11''"
  by (simp add: key_of_def upsert_a_11_def show_int_def show_nat.simps digit_def)

lemma key_upsert_a_12: "key_of upsert_a_12 = ''a12''"
  by (simp add: key_of_def upsert_a_12_def show_int_def show_nat.simps digit_def)

lemma key_delete_a1_1: "key_of delete_a1_1 = ''a11''"
  by (simp add: key_of_def delete_a1_1_def show_int_def show_nat.simps digit_def)

lemma deprecated_a1_fields:
  "ns deprecated_a1 = ''a''" "id_num deprecated_a1 = 1" "action deprecated_a1 = 1"
  "frame_id deprecated_a1 = ''map''" "payload deprecated_a1 = 0"
  by (simp_all add: deprecated_a1_def)

lemma upsert_a_11_fields:
  "ns upsert_a_11 = ''a''" "id_num upsert_a_11 = 11" "action upsert_a_11 = 0"
  "frame_id upsert_a_11 = ''map''" "payload upsert_a_11 = 7"
  by (simp_all add: upsert_a_11_def)

lemma client_a11_eq:
  "client_a11 life =
     \<lparr> lifetime = life, debounceMs = 0, debounceTimer = None,
       markers = [(''a11'', \<lparr>nid = 0, frameID = ''map'', object = 7\<rparr>)],
       updatedTime = (if life = 0 then Map.empty else [''a11'' \<mapsto> 5]),
       rootObject = [0], disposed = [],
       timeouts = (if life = 0 then [] else [(105, ''a11'')]),
       changes = 0, seen = [], warnings = [], nextNode = 1 \<rparr>"
  by (simp add: client_a11_def forEach_body_def Let_def key_upsert_a_11 touch_eq addMarker_def
      MarkerArrayClient_def upsert_a_11_fields)

text \<open>
  The event of a batch on a new client: its listeners are shown the registry with the
  marker of the batch in it, not the empty registry from before the batch.
\<close>

lemma processMessage_seen_after_batch:
  "seen (processMessage payload refresh 0 [upsert_a_11] (MarkerArrayClient 0 0))
     = [[(''a11'', \<lparr>nid = 0, frameID = ''map'', object = 7\<rparr>)]]"
  by (simp add: processMessage_def emit_def forEach_body_def Let_def touch_eq addMarker_def
      MarkerArrayClient_def upsert_a_11_fields key_upsert_a_11)

subsection \<open>Deprecated and unknown actions\<close>

text \<open>
  Claim C3, as the code has it. A message whose action is \<^verbatim>\<open>DEPRECATED\<close> (1) or unknown
  (none of 0, 1, 2, 3) adds one diagnostic and leaves the registry, the root object, the
  disposed nodes and the emitted events as they are. Without a lifetime nothing else
  changes. With a lifetime, the key of the message gets the current time as its update
  time and one more expiry check for it is scheduled, as for every message.
\<close>

theorem skipped_action_effect:
  assumes "action msg \<noteq> 0" "action msg \<noteq> 2" "action msg \<noteq> 3"
  shows "forEach_body mk upd now msg c =
     (if lifetime c = 0 then c else
        c\<lparr>updatedTime := (updatedTime c)(key_of msg \<mapsto> now),
           timeouts := timeouts c @ [(now + 100, key_of msg)]\<rparr>)
     \<lparr>warnings := warnings c @
        [if action msg = 1 then DeprecatedAction else UnknownAction (action msg)]\<rparr>"
  using assms by (simp add: forEach_body_skip touch_eq warn_def)

text \<open>
  The theorem at the deprecated message \<open>(a, 1)\<close>, on a new client with a lifetime of
  1000 ms at time 5.
\<close>

theorem skipped_action_effect_witness:
  "action deprecated_a1 \<noteq> 0 \<and> action deprecated_a1 \<noteq> 2 \<and> action deprecated_a1 \<noteq> 3 \<and>
   forEach_body payload refresh 5 deprecated_a1 (MarkerArrayClient 1000 0) =
     (MarkerArrayClient 1000 0)
       \<lparr>updatedTime := [''a1'' \<mapsto> 5], timeouts := [(105, ''a1'')],
        warnings := [DeprecatedAction]\<rparr>"
  using skipped_action_effect [of deprecated_a1 payload refresh 5 "MarkerArrayClient 1000 0"]
  by (simp add: deprecated_a1_fields key_deprecated_a1 MarkerArrayClient_def)

text \<open>
  Claim C3 as stated fails: with a lifetime set, processing the deprecated message changes
  the update times and the scheduled expiry checks of the client.
\<close>

theorem skipped_action_changes_state:
  "updatedTime (MarkerArrayClient 1000 0 :: nat client) ''a1'' = None \<and>
   updatedTime (forEach_body payload refresh 5 deprecated_a1 (MarkerArrayClient 1000 0)) ''a1''
     = Some 5 \<and>
   timeouts (MarkerArrayClient 1000 0 :: nat client) = [] \<and>
   timeouts (forEach_body payload refresh 5 deprecated_a1 (MarkerArrayClient 1000 0))
     = [(105, ''a1'')]"
  by (simp add: forEach_body_skip touch_eq warn_def key_deprecated_a1 deprecated_a1_fields
      MarkerArrayClient_def)

subsection \<open>Keys\<close>

lemma digit_val: "d < 10 \<Longrightarrow> (of_char (digit d) :: nat) = 48 + d"
proof -
  assume "d < 10"
  then have "d \<in> {0, 1, 2, 3, 4, 5, 6, 7, 8, 9}" by auto
  then show ?thesis by (auto simp: digit_def)
qed

lemma read_show_nat: "read_nat (show_nat n) = n"
proof (induction n rule: show_nat.induct)
  case (1 n)
  show ?case
  proof (cases "n < 10")
    case True
    then show ?thesis by (simp add: show_nat.simps [of n] read_nat_def digit_val)
  next
    case False
    with 1 have "read_nat (show_nat (n div 10)) = n div 10" by simp
    with False show ?thesis
      by (simp add: show_nat.simps [of n] read_nat_def digit_val)
  qed
qed

lemma show_nat_inj: "show_nat m = show_nat n \<Longrightarrow> m = n"
  by (metis read_show_nat)

lemma digit_numeric: "d < 10 \<Longrightarrow> numeric (digit d) \<and> digit d \<noteq> CHR ''-''"
proof -
  assume "d < 10"
  then have "d \<in> {0, 1, 2, 3, 4, 5, 6, 7, 8, 9}" by auto
  then show ?thesis by (auto simp: digit_def numeric_def)
qed

lemma show_nat_digits: "show_nat n \<noteq> [] \<and> (\<forall>ch \<in> set (show_nat n). numeric ch \<and> ch \<noteq> CHR ''-'')"
proof (induction n rule: show_nat.induct)
  case (1 n)
  show ?case
  proof (cases "n < 10")
    case True
    then show ?thesis by (simp add: show_nat.simps [of n] digit_numeric)
  next
    case False
    with 1 have "\<forall>ch \<in> set (show_nat (n div 10)). numeric ch \<and> ch \<noteq> CHR ''-''" by simp
    with False show ?thesis
      by (simp add: show_nat.simps [of n] digit_numeric)
  qed
qed

lemma show_int_inj: "show_int i = show_int j \<Longrightarrow> i = j"
proof -
  assume eq: "show_int i = show_int j"
  have nm: "\<And>n. hd (show_nat n) \<noteq> CHR ''-''"
    using show_nat_digits by (metis hd_in_set)
  have ne: "\<And>n. show_nat n \<noteq> []" using show_nat_digits by blast
  consider "i < 0" "j < 0" | "i < 0" "\<not> j < 0" | "\<not> i < 0" "j < 0" | "\<not> i < 0" "\<not> j < 0"
    by blast
  then show ?thesis
  proof cases
    case 1
    with eq have "show_nat (nat (- i)) = show_nat (nat (- j))" by (simp add: show_int_def)
    then have "nat (- i) = nat (- j)" by (rule show_nat_inj)
    with 1 show ?thesis by simp
  next
    case 2
    with eq have "CHR ''-'' # show_nat (nat (- i)) = show_nat (nat j)" by (simp add: show_int_def)
    then have "hd (show_nat (nat j)) = CHR ''-''" by (metis list.sel(1))
    with nm show ?thesis by blast
  next
    case 3
    with eq have "CHR ''-'' # show_nat (nat (- j)) = show_nat (nat i)" by (simp add: show_int_def)
    then have "hd (show_nat (nat i)) = CHR ''-''" by (metis list.sel(1))
    with nm show ?thesis by blast
  next
    case 4
    with eq have "show_nat (nat i) = show_nat (nat j)" by (simp add: show_int_def)
    then have "nat i = nat j" by (rule show_nat_inj)
    with 4 show ?thesis by simp
  qed
qed

lemma show_int_numeric: "show_int i \<noteq> [] \<and> (\<forall>ch \<in> set (show_int i). numeric ch)"
proof (cases "i < 0")
  case True
  have "numeric CHR ''-''" by (simp add: numeric_def)
  with True show ?thesis
    using show_nat_digits [of "nat (- i)"] by (simp add: show_int_def)
next
  case False
  then show ?thesis
    using show_nat_digits [of "nat i"] by (simp add: show_int_def)
qed

lemma plain_append_eq:
  assumes "plain a" "plain b" "a @ s = b @ t"
    and s: "\<forall>ch \<in> set s. numeric ch" and t: "\<forall>ch \<in> set t. numeric ch"
  shows "a = b \<and> s = t"
proof -
  from assms(3) obtain us where "(a = b @ us \<and> us @ s = t) \<or> (a @ us = b \<and> s = us @ t)"
    by (auto simp: append_eq_append_conv2)
  then show ?thesis
  proof
    assume h: "a = b @ us \<and> us @ s = t"
    have "us = []"
    proof (rule ccontr)
      assume "us \<noteq> []"
      with h have "last a = last us" "a \<noteq> []" by auto
      moreover from \<open>us \<noteq> []\<close> h t have "numeric (last us)" by auto
      ultimately show False using assms(1) by (simp add: plain_def)
    qed
    with h show ?thesis by simp
  next
    assume h: "a @ us = b \<and> s = us @ t"
    have "us = []"
    proof (rule ccontr)
      assume "us \<noteq> []"
      with h have "last b = last us" "b \<noteq> []" by auto
      moreover from \<open>us \<noteq> []\<close> h s have "numeric (last us)" by auto
      ultimately show False using assms(2) by (simp add: plain_def)
    qed
    with h show ?thesis by simp
  qed
qed

lemma key_of_inj:
  assumes "ns m1 = ns m2 \<or> (plain (ns m1) \<and> plain (ns m2))"
    and "key_of m1 = key_of m2"
  shows "ns m1 = ns m2 \<and> id_num m1 = id_num m2"
proof -
  let ?s = "show_int (id_num m1)" and ?t = "show_int (id_num m2)"
  from assms(2) have eq: "ns m1 @ ?s = ns m2 @ ?t" by (simp add: key_of_def)
  have "ns m1 = ns m2 \<and> ?s = ?t"
    using assms(1)
  proof
    assume "ns m1 = ns m2"
    with eq show ?thesis by simp
  next
    assume "plain (ns m1) \<and> plain (ns m2)"
    then show ?thesis
      using plain_append_eq [OF _ _ eq] show_int_numeric by blast
  qed
  then show ?thesis using show_int_inj by blast
qed

lemma markers_other_key:
  assumes "key_of msg \<noteq> k" "action msg \<noteq> 3"
  shows "map_of (markers (forEach_body mk upd now msg c)) k = map_of (markers c) k"
proof -
  consider "action msg = 0" | "action msg = 2" | "action msg \<noteq> 0" "action msg \<noteq> 2"
    by blast
  then show ?thesis
  proof cases
    case 1
    with assms show ?thesis
      by (simp add: forEach_body_def Let_def addMarker_def update_conv' markers_removeMarker
          split: option.splits)
  next
    case 2
    with assms show ?thesis by (simp add: forEach_body_delete markers_removeMarker)
  next
    case 3
    with assms show ?thesis by (simp add: forEach_body_skip warn_def)
  qed
qed

lemma updatedTime_other_key:
  assumes "key_of msg \<noteq> k" "action msg \<noteq> 3"
  shows "updatedTime (forEach_body mk upd now msg c) k = updatedTime c k"
proof -
  have t: "updatedTime (touch now (key_of msg) c) k = updatedTime c k"
    using assms by (simp add: touch_eq)
  consider "action msg = 0" | "action msg = 2" | "action msg \<noteq> 0" "action msg \<noteq> 2"
    by blast
  then show ?thesis
  proof cases
    case 1
    with assms t show ?thesis
      by (simp add: forEach_body_def Let_def addMarker_def updatedTime_removeMarker
          split: option.splits)
  next
    case 2
    with assms t show ?thesis by (simp add: forEach_body_delete updatedTime_removeMarker)
  next
    case 3
    with assms t show ?thesis by (simp add: forEach_body_skip warn_def)
  qed
qed

text \<open>
  Claim C9, as the code has it. The key is the namespace followed by the decimal id. Two
  messages with different (namespace, id) pairs have different keys when their namespaces
  are equal, or when neither namespace ends in a digit or a minus sign. A message with
  another key, unless it is a \<^verbatim>\<open>DELETE_ALL\<close>, leaves the node and the update time stored
  under a key as they are.
\<close>

theorem key_of_separates:
  "((ns m1 = ns m2 \<or> plain (ns m1) \<and> plain (ns m2)) \<and>
      (ns m1, id_num m1) \<noteq> (ns m2, id_num m2) \<longrightarrow> key_of m1 \<noteq> key_of m2) \<and>
   (key_of m1 \<noteq> key_of m2 \<and> action m1 \<noteq> 3 \<longrightarrow>
      map_of (markers (forEach_body mk upd now m1 c)) (key_of m2) = map_of (markers c) (key_of m2) \<and>
      updatedTime (forEach_body mk upd now m1 c) (key_of m2) = updatedTime c (key_of m2))"
  using key_of_inj [of m1 m2] markers_other_key [of m1 "key_of m2"]
    updatedTime_other_key [of m1 "key_of m2"]
  by blast

text \<open>The theorem at the messages \<open>(a, 11)\<close> and \<open>(a, 12)\<close>, on a new client.\<close>

theorem key_of_separates_witness:
  "ns upsert_a_11 = ns upsert_a_12 \<and>
   (ns upsert_a_11, id_num upsert_a_11) \<noteq> (ns upsert_a_12, id_num upsert_a_12) \<and>
   key_of upsert_a_11 \<noteq> key_of upsert_a_12 \<and> action upsert_a_11 \<noteq> 3 \<and>
   map_of (markers (forEach_body payload refresh 5 upsert_a_11 (MarkerArrayClient 0 0)))
     (key_of upsert_a_12) = None"
  using key_of_separates [of upsert_a_11 upsert_a_12 payload refresh 5 "MarkerArrayClient 0 0"]
  by (simp add: upsert_a_11_def upsert_a_12_def MarkerArrayClient_def)

text \<open>
  Claim C9 as stated fails: the pairs \<open>(a, 11)\<close> and \<open>(a1, 1)\<close> are different and have the
  same key, so the \<^verbatim>\<open>DELETE\<close> of the second removes the marker of the first.
\<close>

theorem key_of_collision:
  "(ns upsert_a_11, id_num upsert_a_11) \<noteq> (ns delete_a1_1, id_num delete_a1_1) \<and>
   key_of upsert_a_11 = key_of delete_a1_1 \<and>
   keys (forEach_body payload refresh 0 upsert_a_11 (MarkerArrayClient 0 0)) = {''a11''} \<and>
   keys (forEach_body payload refresh 0 delete_a1_1
          (forEach_body payload refresh 0 upsert_a_11 (MarkerArrayClient 0 0))) = {}"
proof -
  have "(ns upsert_a_11, id_num upsert_a_11) \<noteq> (ns delete_a1_1, id_num delete_a1_1)"
    by (simp add: upsert_a_11_def delete_a1_1_def)
  moreover have "action upsert_a_11 = 0" "action delete_a1_1 = 2"
    by (simp_all add: upsert_a_11_def delete_a1_1_def)
  ultimately show ?thesis
    by (simp add: keys_forEach_body replay_step_def key_upsert_a_11 key_delete_a1_1)
qed

subsection \<open>Deleting all markers\<close>

lemma disposed_fold_mono: "set (disposed c) \<subseteq> set (disposed (fold removeMarker ks c))"
proof (induction ks arbitrary: c)
  case Nil
  show ?case by simp
next
  case (Cons k ks)
  have "set (disposed c) \<subseteq> set (disposed (removeMarker k c))"
    by (auto simp: disposed_removeMarker split: option.splits)
  with Cons [of "removeMarker k c"] show ?case by auto
qed

lemma rootObject_fold_anti: "set (rootObject (fold removeMarker ks c)) \<subseteq> set (rootObject c)"
proof (induction ks arbitrary: c)
  case Nil
  show ?case by simp
next
  case (Cons k ks)
  have "set (rootObject (removeMarker k c)) \<subseteq> set (rootObject c)"
    using set_remove1_subset by (fastforce simp: rootObject_removeMarker split: option.splits)
  with Cons [of "removeMarker k c"] show ?case by auto
qed

lemma distinct_rootObject_removeMarker:
  "distinct (rootObject c) \<Longrightarrow> distinct (rootObject (removeMarker k c))"
  by (simp add: rootObject_removeMarker split: option.splits)

lemma fold_removeMarker_disposes:
  "k \<in> set ks \<Longrightarrow> map_of (markers c) k = Some n \<Longrightarrow>
   nid n \<in> set (disposed (fold removeMarker ks c)) \<and>
   (distinct (rootObject c) \<longrightarrow> nid n \<notin> set (rootObject (fold removeMarker ks c)))"
proof (induction ks arbitrary: c)
  case Nil
  then show ?case by simp
next
  case (Cons k' ks)
  show ?case
  proof (cases "k' = k")
    case True
    with Cons.prems have d: "nid n \<in> set (disposed (removeMarker k' c))"
      by (simp add: disposed_removeMarker)
    from True Cons.prems have r: "distinct (rootObject c) \<Longrightarrow> nid n \<notin> set (rootObject (removeMarker k' c))"
      by (simp add: rootObject_removeMarker)
    from d disposed_fold_mono [of "removeMarker k' c" ks] r rootObject_fold_anti [of ks "removeMarker k' c"]
    show ?thesis by auto
  next
    case False
    with Cons.prems have "k \<in> set ks" "map_of (markers (removeMarker k' c)) k = Some n"
      by (simp_all add: markers_removeMarker)
    from Cons.IH [OF this] distinct_rootObject_removeMarker [of c k']
    show ?thesis by simp
  qed
qed

text \<open>
  Claim C8. Whatever its namespace and id, a \<^verbatim>\<open>DELETE_ALL\<close> message leaves the registry
  without keys; every node the registry held has been disposed, and is no longer a child
  of the root object (whose children are distinct, each node being added once).
\<close>

theorem delete_all_empties_registry:
  assumes "action msg = 3"
  shows "markers (forEach_body mk upd now msg c) = [] \<and>
         keys (forEach_body mk upd now msg c) = {} \<and>
         (\<forall>k n. map_of (markers c) k = Some n \<longrightarrow>
            nid n \<in> set (disposed (forEach_body mk upd now msg c)) \<and>
            (distinct (rootObject c) \<longrightarrow> nid n \<notin> set (rootObject (forEach_body mk upd now msg c))))"
proof -
  let ?c1 = "touch now (key_of msg) c"
  have eq: "forEach_body mk upd now msg c = (fold removeMarker (map fst (markers c)) ?c1)\<lparr>markers := []\<rparr>"
    using assms by (rule forEach_body_delete_all)
  have "nid n \<in> set (disposed (fold removeMarker (map fst (markers c)) ?c1)) \<and>
        (distinct (rootObject c) \<longrightarrow> nid n \<notin> set (rootObject (fold removeMarker (map fst (markers c)) ?c1)))"
    if "map_of (markers c) k = Some n" for k n
  proof -
    from that have "k \<in> set (map fst (markers c))"
      by (metis map_of_SomeD fst_conv image_eqI set_map)
    moreover from that have "map_of (markers ?c1) k = Some n" by simp
    ultimately show ?thesis
      using fold_removeMarker_disposes [of k "map fst (markers c)" ?c1 n] by simp
  qed
  then show ?thesis unfolding eq by (simp add: keys_def)
qed

text \<open>The theorem at a client that holds the marker \<open>(a, 11)\<close>.\<close>

theorem delete_all_empties_registry_witness:
  "action delete_all_msg = 3 \<and>
   map_of (markers (client_a11 0)) ''a11'' = Some \<lparr>nid = 0, frameID = ''map'', object = 7\<rparr> \<and>
   distinct (rootObject (client_a11 0)) \<and>
   markers (forEach_body payload refresh 6 delete_all_msg (client_a11 0)) = [] \<and>
   0 \<in> set (disposed (forEach_body payload refresh 6 delete_all_msg (client_a11 0))) \<and>
   0 \<notin> set (rootObject (forEach_body payload refresh 6 delete_all_msg (client_a11 0)))"
proof -
  have a: "action delete_all_msg = 3" by (simp add: delete_all_msg_def)
  have m: "map_of (markers (client_a11 0)) ''a11'' = Some \<lparr>nid = 0, frameID = ''map'', object = 7\<rparr>"
    and d: "distinct (rootObject (client_a11 0))"
    by (simp_all add: client_a11_eq)
  note t = delete_all_empties_registry [OF a, of payload refresh 6 "client_a11 0"]
  from t have e: "markers (forEach_body payload refresh 6 delete_all_msg (client_a11 0)) = []"
    by blast
  from t m have "nid \<lparr>nid = 0, frameID = ''map'', object = 7::nat\<rparr>
       \<in> set (disposed (forEach_body payload refresh 6 delete_all_msg (client_a11 0))) \<and>
     (distinct (rootObject (client_a11 0)) \<longrightarrow>
      nid \<lparr>nid = 0, frameID = ''map'', object = 7::nat\<rparr>
       \<notin> set (rootObject (forEach_body payload refresh 6 delete_all_msg (client_a11 0))))"
    by blast
  with a m d e show ?thesis by simp
qed

subsection \<open>The same update twice\<close>

lemma distinct_keys_removeMarker:
  "distinct (map fst (markers c)) \<Longrightarrow> distinct (map fst (markers (removeMarker k c)))"
  by (simp add: markers_removeMarker distinct_delete)

lemma distinct_keys_forEach_body:
  assumes "distinct (map fst (markers c))"
  shows "distinct (map fst (markers (forEach_body mk upd now msg c)))"
proof -
  let ?k = "key_of msg"
  have d: "distinct (map fst (AList.delete ?k (markers c)))"
    using assms by (rule distinct_delete)
  show ?thesis
    using assms d
    by (simp add: forEach_body_def Let_def addMarker_def warn_def markers_removeMarker
        distinct_update split: option.splits)
qed

lemma one_entry:
  "distinct (map fst al) \<Longrightarrow> map_of al k = Some v \<Longrightarrow>
   length (filter (\<lambda>e. fst e = k) al) = 1"
proof (induction al)
  case Nil
  then show ?case by simp
next
  case (Cons e al)
  show ?case
  proof (cases "fst e = k")
    case True
    from Cons.prems(1) have "fst e \<notin> fst ` set al" by simp
    with True have "\<forall>e' \<in> set al. fst e' \<noteq> k" by blast
    then have "filter (\<lambda>e. fst e = k) al = []" by (simp add: filter_empty_conv)
    with True show ?thesis by simp
  next
    case False
    with Cons show ?thesis by (cases e) auto
  qed
qed

text \<open>
  Claim C7, as the code has it. Let an \<^verbatim>\<open>UPSERT\<close> message be applied at time \<open>t1\<close> and
  again at time \<open>t2\<close>, and let the marker that the first application leaves under the key
  accept the message as an update in place. Then after the second application the key
  holds the same scene node with the updated marker; no key was added, no node was
  created, removed from the root object or disposed; the registry has exactly one entry
  for the key; and, when a lifetime is set, the update time of the key is \<open>t2\<close>.
\<close>

theorem upsert_twice_in_place:
  assumes a: "action msg = 0"
    and n1: "map_of (markers (forEach_body mk upd t1 msg c)) (key_of msg) = Some n1"
    and acc: "upd (object n1) msg = Some v'"
  shows "map_of (markers (forEach_body mk upd t2 msg (forEach_body mk upd t1 msg c))) (key_of msg)
           = Some (n1\<lparr>object := v'\<rparr>) \<and>
         map fst (markers (forEach_body mk upd t2 msg (forEach_body mk upd t1 msg c)))
           = map fst (markers (forEach_body mk upd t1 msg c)) \<and>
         rootObject (forEach_body mk upd t2 msg (forEach_body mk upd t1 msg c))
           = rootObject (forEach_body mk upd t1 msg c) \<and>
         disposed (forEach_body mk upd t2 msg (forEach_body mk upd t1 msg c))
           = disposed (forEach_body mk upd t1 msg c) \<and>
         nextNode (forEach_body mk upd t2 msg (forEach_body mk upd t1 msg c))
           = nextNode (forEach_body mk upd t1 msg c) \<and>
         (distinct (map fst (markers c)) \<longrightarrow>
            length (filter (\<lambda>e. fst e = key_of msg)
              (markers (forEach_body mk upd t2 msg (forEach_body mk upd t1 msg c)))) = 1) \<and>
         (lifetime c \<noteq> 0 \<longrightarrow>
            updatedTime (forEach_body mk upd t2 msg (forEach_body mk upd t1 msg c)) (key_of msg)
              = Some t2)"
proof -
  let ?k = "key_of msg"
  let ?c1 = "forEach_body mk upd t1 msg c"
  let ?c2 = "forEach_body mk upd t2 msg ?c1"
  have c2: "?c2 = (touch t2 ?k ?c1)\<lparr>markers := AList.update ?k (n1\<lparr>object := v'\<rparr>) (markers ?c1)\<rparr>"
    using a n1 acc by (rule forEach_body_modify)
  have l1: "lifetime ?c1 = lifetime c" by simp
  have m: "map_of (markers ?c2) ?k = Some (n1\<lparr>object := v'\<rparr>)"
    unfolding c2 by (simp add: update_conv')
  have kin: "?k \<in> set (map fst (markers ?c1))"
    using n1 by (metis map_of_SomeD fst_conv image_eqI set_map)
  have ks: "map fst (markers ?c2) = map fst (markers ?c1)"
    unfolding c2 using kin by (simp add: update_keys)
  have r: "rootObject ?c2 = rootObject ?c1" "disposed ?c2 = disposed ?c1" "nextNode ?c2 = nextNode ?c1"
    unfolding c2 by simp_all
  have one: "length (filter (\<lambda>e. fst e = ?k) (markers ?c2)) = 1" if "distinct (map fst (markers c))"
  proof -
    from that have "distinct (map fst (markers ?c1))" by (rule distinct_keys_forEach_body)
    with ks have "distinct (map fst (markers ?c2))" by simp
    then show ?thesis using m by (rule one_entry)
  qed
  have u1: "updatedTime ?c2 ?k = Some t2" if "lifetime c \<noteq> 0"
    unfolding c2 using that l1 by (simp add: touch_eq)
  from m ks r one u1 show ?thesis by blast
qed

text \<open>The theorem at the message \<open>(a, 11)\<close>, on a new client with a lifetime of 1000 ms.\<close>

theorem upsert_twice_in_place_witness:
  "action upsert_a_11 = 0 \<and>
   map_of (markers (forEach_body payload refresh 5 upsert_a_11 (MarkerArrayClient 1000 0)))
     (key_of upsert_a_11) = Some \<lparr>nid = 0, frameID = ''map'', object = 7\<rparr> \<and>
   refresh (object \<lparr>nid = 0, frameID = ''map'', object = 7\<rparr>) upsert_a_11 = Some 7 \<and>
   distinct (map fst (markers (MarkerArrayClient 1000 0 :: nat client))) \<and>
   lifetime (MarkerArrayClient 1000 0 :: nat client) \<noteq> 0 \<and>
   map_of (markers (forEach_body payload refresh 9 upsert_a_11
      (forEach_body payload refresh 5 upsert_a_11 (MarkerArrayClient 1000 0)))) (key_of upsert_a_11)
     = Some \<lparr>nid = 0, frameID = ''map'', object = 7\<rparr> \<and>
   length (filter (\<lambda>e. fst e = key_of upsert_a_11)
     (markers (forEach_body payload refresh 9 upsert_a_11
        (forEach_body payload refresh 5 upsert_a_11 (MarkerArrayClient 1000 0))))) = 1 \<and>
   updatedTime (forEach_body payload refresh 9 upsert_a_11
      (forEach_body payload refresh 5 upsert_a_11 (MarkerArrayClient 1000 0))) (key_of upsert_a_11)
     = Some 9"
proof -
  have a: "action upsert_a_11 = 0" by (simp add: upsert_a_11_def)
  have n: "map_of (markers (forEach_body payload refresh 5 upsert_a_11 (MarkerArrayClient 1000 0)))
     (key_of upsert_a_11) = Some \<lparr>nid = 0, frameID = ''map'', object = 7\<rparr>"
    using client_a11_eq [of 1000] by (simp add: client_a11_def key_upsert_a_11)
  have r: "refresh (object \<lparr>nid = 0, frameID = ''map'', object = 7::nat\<rparr>) upsert_a_11 = Some 7"
    by (simp add: refresh_def upsert_a_11_def)
  have d: "distinct (map fst (markers (MarkerArrayClient 1000 0 :: nat client)))"
    and l: "lifetime (MarkerArrayClient 1000 0 :: nat client) \<noteq> 0"
    by (simp_all add: MarkerArrayClient_def)
  from upsert_twice_in_place [OF a n r, of 9] a n r d l show ?thesis by simp
qed

text \<open>
  Claim C7 as stated fails without a lifetime: the client then records no update time at
  all, so after the two applications there is none for the key.
\<close>

theorem upsert_twice_no_update_time:
  "key_of upsert_a_11 = ''a11'' \<and>
   updatedTime (forEach_body payload refresh 9 upsert_a_11
      (forEach_body payload refresh 5 upsert_a_11 (MarkerArrayClient 0 0))) ''a11'' = None"
  by (simp add: forEach_body_def Let_def upsert_a_11_fields key_upsert_a_11 touch_eq
      addMarker_def MarkerArrayClient_def refresh_def split: option.splits)

subsection \<open>Timeouts and the fields they leave alone\<close>

lemma frame_emit [simp]:
  "lifetime (emit c) = lifetime c"
  "debounceMs (emit c) = debounceMs c"
  "debounceTimer (emit c) = debounceTimer c"
  "markers (emit c) = markers c"
  "updatedTime (emit c) = updatedTime c"
  "rootObject (emit c) = rootObject c"
  "disposed (emit c) = disposed c"
  "timeouts (emit c) = timeouts c"
  "changes (emit c) = Suc (changes c)"
  "seen (emit c) = seen c @ [markers c]"
  by (simp_all add: emit_def)

lemma frame_checkTime [simp]:
  "lifetime (checkTime now k c) = lifetime c"
  "debounceMs (checkTime now k c) = debounceMs c"
  "debounceTimer (checkTime now k c) = debounceTimer c"
  by (simp_all add: checkTime_def)

lemma frame_fireTimeout [simp]:
  "lifetime (fireTimeout now t c) = lifetime c"
  "debounceMs (fireTimeout now t c) = debounceMs c"
  "debounceTimer (fireTimeout now t c) = debounceTimer c"
  by (simp_all add: fireTimeout_def)

lemma runTimeouts_None: "next_due T (timeouts c) = None \<Longrightarrow> runTimeouts T c = c"
  by (simp add: runTimeouts.simps)

lemma runTimeouts_Some:
  "next_due T (timeouts c) = Some t \<Longrightarrow> runTimeouts T c = runTimeouts T (fireTimeout (fst t) t c)"
  by (subst runTimeouts.simps) simp

lemma runTimeouts_invariant:
  assumes "P c"
    and "\<And>c t. P c \<Longrightarrow> next_due T (timeouts c) = Some t \<Longrightarrow> P (fireTimeout (fst t) t c)"
  shows "P (runTimeouts T c)"
  using assms
proof (induction T c rule: runTimeouts.induct)
  case (1 T c)
  show ?case
  proof (cases "next_due T (timeouts c)")
    case None
    with "1.prems"(1) show ?thesis by (simp add: runTimeouts_None)
  next
    case (Some t)
    from "1.prems"(1) Some have "P (fireTimeout (fst t) t c)" by (rule "1.prems"(2))
    from "1.IH" [OF Some this "1.prems"(2)] Some show ?thesis by (simp add: runTimeouts_Some)
  qed
qed

lemma runTimeouts_done: "next_due T (timeouts (runTimeouts T c)) = None"
proof (induction T c rule: runTimeouts.induct)
  case (1 T c)
  show ?case
  proof (cases "next_due T (timeouts c)")
    case None
    then show ?thesis by (simp add: runTimeouts_None)
  next
    case (Some t)
    with "1.IH" [OF Some] show ?thesis by (simp add: runTimeouts_Some)
  qed
qed

lemma frame_runTimeouts [simp]:
  "lifetime (runTimeouts T c) = lifetime c"
  "debounceMs (runTimeouts T c) = debounceMs c"
  "debounceTimer (runTimeouts T c) = debounceTimer c"
proof -
  show "lifetime (runTimeouts T c) = lifetime c"
    by (rule runTimeouts_invariant [where P = "\<lambda>c'. lifetime c' = lifetime c"]) simp_all
  show "debounceMs (runTimeouts T c) = debounceMs c"
    by (rule runTimeouts_invariant [where P = "\<lambda>c'. debounceMs c' = debounceMs c"]) simp_all
  show "debounceTimer (runTimeouts T c) = debounceTimer c"
    by (rule runTimeouts_invariant [where P = "\<lambda>c'. debounceTimer c' = debounceTimer c"]) simp_all
qed

lemma frame_fireDebounce [simp]:
  "lifetime (fireDebounce T c) = lifetime c"
  "debounceMs (fireDebounce T c) = debounceMs c"
  "markers (fireDebounce T c) = markers c"
  "updatedTime (fireDebounce T c) = updatedTime c"
  "timeouts (fireDebounce T c) = timeouts c"
  "changes (fireDebounce T c) = changes c"
  by (simp_all add: fireDebounce_def split: option.splits)

lemma frame_processMessage [simp]:
  "lifetime (processMessage mk upd now msgs c) = lifetime c"
  "debounceMs (processMessage mk upd now msgs c) = debounceMs c"
  "debounceTimer (processMessage mk upd now msgs c) = debounceTimer c"
proof -
  have "lifetime (fold (forEach_body mk upd now) msgs c) = lifetime c \<and>
        debounceMs (fold (forEach_body mk upd now) msgs c) = debounceMs c \<and>
        debounceTimer (fold (forEach_body mk upd now) msgs c) = debounceTimer c"
    by (induction msgs arbitrary: c) simp_all
  then show "lifetime (processMessage mk upd now msgs c) = lifetime c"
    "debounceMs (processMessage mk upd now msgs c) = debounceMs c"
    "debounceTimer (processMessage mk upd now msgs c) = debounceTimer c"
    by (simp_all add: processMessage_def)
qed

subsection \<open>Every marker has a pending expiry check\<close>

lemma timeouts_forEach_body:
  "timeouts (forEach_body mk upd now msg c) = timeouts (touch now (key_of msg) c)"
  by (simp add: forEach_body_def Let_def addMarker_def warn_def split: option.splits)

lemma has_check_forEach_body:
  assumes "lifetime c \<noteq> 0" "has_check c"
  shows "has_check (forEach_body mk upd now msg c)"
proof -
  have t: "timeouts (forEach_body mk upd now msg c) = timeouts c @ [(now + 100, key_of msg)]"
    using assms(1) by (simp add: timeouts_forEach_body touch_eq)
  have "keys (forEach_body mk upd now msg c) \<subseteq> insert (key_of msg) (keys c)"
    by (auto simp: keys_forEach_body replay_step_def)
  with assms(2) show ?thesis
    unfolding has_check_def t by force
qed

lemma has_check_fold_forEach:
  "lifetime c \<noteq> 0 \<Longrightarrow> has_check c \<Longrightarrow> has_check (fold (forEach_body mk upd now) msgs c)"
  by (induction msgs arbitrary: c) (simp_all add: has_check_forEach_body)

lemma has_check_cong:
  "markers c' = markers c \<Longrightarrow> timeouts c' = timeouts c \<Longrightarrow> has_check c' = has_check c"
  by (simp add: has_check_def keys_def)

lemma has_check_processMessage:
  "lifetime c \<noteq> 0 \<Longrightarrow> has_check c \<Longrightarrow> has_check (processMessage mk upd now msgs c)"
  using has_check_fold_forEach [of c mk upd now msgs]
  by (simp add: processMessage_def has_check_cong [of "emit _"])

lemma keys_removeMarker: "keys (removeMarker k c) = keys c - {k}"
  by (auto simp: keys_def markers_removeMarker AList.delete_eq)

lemma has_check_removeMarker: "has_check c \<Longrightarrow> has_check (removeMarker k c)"
  by (simp add: has_check_def keys_removeMarker)

lemma has_check_fireTimeout:
  assumes "has_check c"
  shows "has_check (fireTimeout now t c)"
proof (cases "expired now (updatedTime c (snd t)) (lifetime c)")
  case True
  then have k: "keys (fireTimeout now t c) = keys c - {snd t}"
    and ts: "timeouts (fireTimeout now t c) = remove1 t (timeouts c)"
    by (simp_all add: fireTimeout_def checkTime_def keys_removeMarker)
       (simp add: keys_def removeMarker_def Let_def split: option.splits)
  show ?thesis unfolding has_check_def k ts
  proof
    fix k assume k: "k \<in> keys c - {snd t}"
    with assms have "k \<in> snd ` set (timeouts c)" by (simp add: has_check_def)
    then obtain t' where t': "t' \<in> set (timeouts c)" "snd t' = k" by auto
    with k have "t' \<noteq> t" by auto
    with t' have "t' \<in> set (remove1 t (timeouts c))" by simp
    with t' show "k \<in> snd ` set (remove1 t (timeouts c))" by force
  qed
next
  case False
  then have k: "keys (fireTimeout now t c) = keys c"
    and ts: "timeouts (fireTimeout now t c) = remove1 t (timeouts c) @ [(now + 100, snd t)]"
    by (simp_all add: fireTimeout_def checkTime_def keys_def)
  show ?thesis unfolding has_check_def k ts
  proof
    fix k assume "k \<in> keys c"
    with assms have "k \<in> snd ` set (timeouts c)" by (simp add: has_check_def)
    then obtain t' where t': "t' \<in> set (timeouts c)" "snd t' = k" by auto
    show "k \<in> snd ` set (remove1 t (timeouts c) @ [(now + 100, snd t)])"
    proof (cases "t' = t")
      case True
      with t' show ?thesis by simp
    next
      case False
      with t' have "t' \<in> set (remove1 t (timeouts c))" by simp
      with t' show ?thesis by force
    qed
  qed
qed

lemma has_check_runTimeouts: "has_check c \<Longrightarrow> has_check (runTimeouts T c)"
  by (rule runTimeouts_invariant [where P = has_check]) (simp_all add: has_check_fireTimeout)

lemma has_check_advance: "has_check c \<Longrightarrow> has_check (advance T c)"
  unfolding advance_def
  by (rule has_check_runTimeouts) (simp add: has_check_cong [of "fireDebounce T c" c])

lemma has_check_boundProcessMessage:
  "lifetime c \<noteq> 0 \<Longrightarrow> has_check c \<Longrightarrow> has_check (boundProcessMessage mk upd now msgs c)"
  using has_check_processMessage [of c mk upd now msgs]
  by (simp add: boundProcessMessage_def debouncedProcessMessage_def
      has_check_cong [of "_\<lparr>debounceTimer := _\<rparr>"])

text \<open>
  Claim C2, as the code has it. With a lifetime set, every marker of the registry has at
  least one pending expiry check. This holds for a new client and is preserved by every
  operation: processing a batch (directly or through the debounce), removing a marker, a
  timeout that fires (which evicts or checks again later), and the passing of time.
  The number of pending checks of a marker is not bounded by one: every message for its
  key starts one more.
\<close>

theorem expiry_check_outstanding:
  "has_check (MarkerArrayClient l d) \<and>
   (0 < lifetime c \<and> has_check c \<longrightarrow>
      has_check (processMessage mk upd now msgs c) \<and>
      has_check (boundProcessMessage mk upd now msgs c) \<and>
      has_check (removeMarker k c) \<and>
      has_check (fireTimeout now t c) \<and>
      has_check (advance T c))"
  by (simp add: has_check_processMessage has_check_boundProcessMessage has_check_removeMarker
      has_check_fireTimeout has_check_advance)
    (simp add: has_check_def)


text \<open>
  Claim C2 as stated fails: after a batch with two \<^verbatim>\<open>UPSERT\<close> messages for one key, the
  marker has two pending expiry checks.
\<close>

theorem two_checks_for_one_marker:
  "0 < lifetime (processMessage payload refresh 5 [upsert_a_11, upsert_a_11] (MarkerArrayClient 1000 0)) \<and>
   keys (processMessage payload refresh 5 [upsert_a_11, upsert_a_11] (MarkerArrayClient 1000 0))
     = {''a11''} \<and>
   checks_for ''a11''
     (processMessage payload refresh 5 [upsert_a_11, upsert_a_11] (MarkerArrayClient 1000 0)) = 2"
proof -
  let ?c0 = "MarkerArrayClient 1000 0 :: nat client"
  have l: "lifetime ?c0 = 1000" and t0: "timeouts ?c0 = []" by (simp_all add: MarkerArrayClient_def)
  have "timeouts (processMessage payload refresh 5 [upsert_a_11, upsert_a_11] ?c0)
      = [(105, ''a11''), (105, ''a11'')]"
    by (simp add: processMessage_def timeouts_forEach_body touch_eq l t0 key_upsert_a_11)
  moreover have "keys (processMessage payload refresh 5 [upsert_a_11, upsert_a_11] ?c0) = {''a11''}"
    by (simp add: processMessage_def keys_forEach_body replay_step_def
        upsert_a_11_fields key_upsert_a_11)
  ultimately show ?thesis by (simp add: checks_for_def l)
qed

text \<open>
  The theorem at a client with a lifetime of 1000 ms that holds the marker \<open>(a, 11)\<close>.
\<close>

theorem expiry_check_outstanding_witness:
  "0 < lifetime (client_a11 1000) \<and> has_check (client_a11 1000) \<and>
   has_check (processMessage payload refresh 9 [upsert_a_12] (client_a11 1000)) \<and>
   has_check (fireTimeout 105 (105, ''a11'') (client_a11 1000)) \<and>
   has_check (advance 2000 (client_a11 1000))"
proof -
  have l: "0 < lifetime (client_a11 1000)" and h: "has_check (client_a11 1000)"
    by (simp_all add: client_a11_eq has_check_def keys_def)
  with expiry_check_outstanding [of _ _ "client_a11 1000"] show ?thesis by blast
qed

subsection \<open>The debounce\<close>

lemma debounceTimer_advance:
  "debounceTimer (advance T c) =
     (case debounceTimer c of None \<Rightarrow> None | Some d \<Rightarrow> if d \<le> T then None else Some d)"
  by (simp add: advance_def fireDebounce_def split: option.splits)

lemma debounceMs_advance [simp]: "debounceMs (advance T c) = debounceMs c"
  by (simp add: advance_def)

lemma bound_forwarded:
  "0 < debounceMs c \<Longrightarrow> debounceTimer c = None \<Longrightarrow>
   boundProcessMessage mk upd t b c =
     (processMessage mk upd t b c)\<lparr>debounceTimer := Some (t + int (debounceMs c))\<rparr>"
  by (simp add: boundProcessMessage_def debouncedProcessMessage_def)

lemma bound_dropped:
  "0 < debounceMs c \<Longrightarrow> debounceTimer c \<noteq> None \<Longrightarrow> boundProcessMessage mk upd t b c = c"
  by (auto simp add: boundProcessMessage_def debouncedProcessMessage_def)

lemma deliver_forwarded:
  assumes "0 < debounceMs c" "debounceTimer (advance t c) = None"
  shows "deliver mk upd (t, b) c =
     (processMessage mk upd t b (advance t c))\<lparr>debounceTimer := Some (t + int (debounceMs c))\<rparr>"
  using assms bound_forwarded [of "advance t c" mk upd t b] by (simp add: deliver_def)

lemma deliver_dropped:
  assumes "0 < debounceMs c" "debounceTimer c = Some d" "fst ev < d"
  shows "deliver mk upd ev c = advance (fst ev) c"
proof -
  from assms have "debounceTimer (advance (fst ev) c) \<noteq> None"
    by (simp add: debounceTimer_advance)
  with assms(1) show ?thesis
    using bound_dropped [of "advance (fst ev) c"] by (simp add: deliver_def)
qed

lemma window_batches:
  assumes "0 < debounceMs c" "debounceTimer c = Some d" "\<forall>ev \<in> set evs. fst ev < d"
  shows "deliver_all mk upd evs c = fold (\<lambda>ev. advance (fst ev)) evs c \<and>
         applied_batches mk upd evs c = 0"
  using assms
proof (induction evs arbitrary: c)
  case Nil
  show ?case by (simp add: deliver_all_def)
next
  case (Cons ev evs)
  from Cons.prems have lt: "fst ev < d" by simp
  with Cons.prems have d: "deliver mk upd ev c = advance (fst ev) c"
    using deliver_dropped by blast
  from Cons.prems lt have t: "debounceTimer (advance (fst ev) c) = Some d"
    by (simp add: debounceTimer_advance)
  from Cons.prems have "0 < debounceMs (advance (fst ev) c)" by simp
  from Cons.IH [OF this t] Cons.prems(3)
  have "deliver_all mk upd evs (advance (fst ev) c) = fold (\<lambda>ev. advance (fst ev)) evs (advance (fst ev) c)"
    and "applied_batches mk upd evs (advance (fst ev) c) = 0" by simp_all
  with d t Cons.prems(1) show ?case by (simp add: deliver_all_def forwards_def)
qed

lemma spaced_batches:
  assumes "0 < debounceMs c" "spaced (debounceMs c) (map fst evs)"
    "evs \<noteq> [] \<longrightarrow> closed_by (fst (hd evs)) c"
  shows "applied_batches mk upd evs c = length evs"
  using assms
proof (induction evs arbitrary: c)
  case Nil
  show ?case by simp
next
  case (Cons ev evs)
  obtain t b where ev: "ev = (t, b)" by (cases ev)
  from Cons.prems(3) have n: "debounceTimer (advance t c) = None"
    by (simp add: ev closed_by_def debounceTimer_advance split: option.splits)
  let ?c' = "deliver mk upd ev c"
  from Cons.prems(1) n have c': "?c' =
      (processMessage mk upd t b (advance t c))\<lparr>debounceTimer := Some (t + int (debounceMs c))\<rparr>"
    unfolding ev by (rule deliver_forwarded)
  then have ms: "debounceMs ?c' = debounceMs c" and tm: "debounceTimer ?c' = Some (t + int (debounceMs c))"
    by simp_all
  have sp: "spaced (debounceMs ?c') (map fst evs)"
    using Cons.prems(2) ms by (cases evs) (simp_all add: ev)
  have cl: "evs \<noteq> [] \<longrightarrow> closed_by (fst (hd evs)) ?c'"
    using Cons.prems(2) tm by (cases evs) (simp_all add: ev closed_by_def)
  from Cons.prems(1) ms have "0 < debounceMs ?c'" by simp
  from Cons.IH [OF this sp cl] n show ?case by (simp add: ev forwards_def)
qed


text \<open>
  Claim C5. Let the debounce window \<open>W\<close> be positive. A batch that arrives while the
  timer is not set is processed at once, and the timer is set until \<open>W\<close> later; a batch that
  arrives while the timer is set changes nothing. After a batch was passed on at time
  \<open>t\<close>, the timer stays set at every time before \<open>t + W\<close> and is reset from then on.
  Hence of a first batch at \<open>t\<close> and any further batches before \<open>t + W\<close> exactly one is
  applied, the others leaving only time to pass; and of batches that each arrive more than
  \<open>W\<close> after the one before, every one is applied.
\<close>

theorem debounce_gate:
  assumes W: "0 < debounceMs c"
  shows "(debounceTimer c = None \<longrightarrow>
           boundProcessMessage mk upd t b c =
             (processMessage mk upd t b c)\<lparr>debounceTimer := Some (t + int (debounceMs c))\<rparr>) \<and>
         (debounceTimer c \<noteq> None \<longrightarrow> boundProcessMessage mk upd t b c = c) \<and>
         (debounceTimer (advance t c) = None \<longrightarrow>
           (\<forall>T. debounceTimer (advance T (deliver mk upd (t, b) c)) =
              (if T < t + int (debounceMs c) then Some (t + int (debounceMs c)) else None))) \<and>
         (debounceTimer (advance t c) = None \<and> (\<forall>ev \<in> set evs. fst ev < t + int (debounceMs c)) \<longrightarrow>
           deliver_all mk upd ((t, b) # evs) c =
             fold (\<lambda>ev. advance (fst ev)) evs (deliver mk upd (t, b) c) \<and>
           applied_batches mk upd ((t, b) # evs) c = 1) \<and>
         (debounceTimer c = None \<and> spaced (debounceMs c) (map fst evs') \<longrightarrow>
           applied_batches mk upd evs' c = length evs')"
proof -
  let ?W = "int (debounceMs c)"
  let ?c1 = "deliver mk upd (t, b) c"
  have fw: "debounceTimer ?c1 = Some (t + ?W) \<and> debounceMs ?c1 = debounceMs c"
    if "debounceTimer (advance t c) = None"
    using deliver_forwarded [OF W that, of mk upd b] by simp
  have p3: "debounceTimer (advance T ?c1) = (if T < t + ?W then Some (t + ?W) else None)"
    if "debounceTimer (advance t c) = None" for T
    using fw [OF that] by (simp add: debounceTimer_advance)
  have p4: "deliver_all mk upd ((t, b) # evs) c = fold (\<lambda>ev. advance (fst ev)) evs ?c1 \<and>
            applied_batches mk upd ((t, b) # evs) c = 1"
    if n: "debounceTimer (advance t c) = None" and w: "\<forall>ev \<in> set evs. fst ev < t + ?W"
  proof -
    from fw [OF n] W have "0 < debounceMs ?c1" "debounceTimer ?c1 = Some (t + ?W)" by simp_all
    from window_batches [OF this w, of mk upd] n
    show ?thesis by (simp add: deliver_all_def forwards_def)
  qed
  have p5: "applied_batches mk upd evs' c = length evs'"
    if "debounceTimer c = None" "spaced (debounceMs c) (map fst evs')"
    using spaced_batches [OF W that(2), of mk upd] that(1) by (simp add: closed_by_def)
  from bound_forwarded [OF W, of mk upd t b] bound_dropped [OF W, of mk upd t b] p3 p4 p5
  show ?thesis by blast
qed

text \<open>
  The theorem at a client with a debounce of 50 ms: three batches at 0, 10 and 49, and
  three batches at 0, 51 and 200.
\<close>

theorem debounce_gate_witness:
  "0 < debounceMs debounced_client \<and> debounceTimer debounced_client = None \<and>
   debounceTimer (advance 0 debounced_client) = None \<and>
   (10::int) < 0 + int (debounceMs debounced_client) \<and>
   (49::int) < 0 + int (debounceMs debounced_client) \<and>
   spaced (debounceMs debounced_client) (map fst [(0, [upsert_a_11]), (51, [upsert_a_12]), (200, [delete_all_msg])]) \<and>
   boundProcessMessage payload refresh 0 [upsert_a_11] debounced_client =
     (processMessage payload refresh 0 [upsert_a_11] debounced_client)\<lparr>debounceTimer := Some 50\<rparr> \<and>
   debounceTimer (advance 49 (deliver payload refresh (0, [upsert_a_11]) debounced_client)) = Some 50 \<and>
   debounceTimer (advance 50 (deliver payload refresh (0, [upsert_a_11]) debounced_client)) = None \<and>
   applied_batches payload refresh
     [(0, [upsert_a_11]), (10, [upsert_a_12]), (49, [delete_all_msg])] debounced_client = 1 \<and>
   applied_batches payload refresh
     [(0, [upsert_a_11]), (51, [upsert_a_12]), (200, [delete_all_msg])] debounced_client = 3"
proof -
  have W: "0 < debounceMs debounced_client" and ms: "debounceMs debounced_client = 50"
    and n: "debounceTimer debounced_client = None"
    by (simp_all add: debounced_client_def MarkerArrayClient_def)
  from n have n': "debounceTimer (advance 0 debounced_client) = None"
    by (simp add: debounceTimer_advance)
  have w: "\<forall>ev \<in> set [(10, [upsert_a_12]), (49, [delete_all_msg])].
      fst ev < 0 + int (debounceMs debounced_client)"
    by (simp add: ms)
  have s: "spaced (debounceMs debounced_client)
      (map fst [(0, [upsert_a_11]), (51, [upsert_a_12]), (200, [delete_all_msg])])"
    by (simp add: ms)
  note g = debounce_gate [OF W, of payload refresh 0 "[upsert_a_11]"
      "[(10, [upsert_a_12]), (49, [delete_all_msg])]"
      "[(0, [upsert_a_11]), (51, [upsert_a_12]), (200, [delete_all_msg])]"]
  from g n have 1: "boundProcessMessage payload refresh 0 [upsert_a_11] debounced_client =
     (processMessage payload refresh 0 [upsert_a_11] debounced_client)\<lparr>debounceTimer := Some 50\<rparr>"
    by (simp add: ms)
  from g n' have 2: "\<forall>T. debounceTimer (advance T (deliver payload refresh (0, [upsert_a_11]) debounced_client)) =
              (if T < 50 then Some 50 else None)"
    by (simp add: ms)
  from g n' w have 3: "applied_batches payload refresh
     [(0, [upsert_a_11]), (10, [upsert_a_12]), (49, [delete_all_msg])] debounced_client = 1"
    by blast
  from g n s have 4: "applied_batches payload refresh
     [(0, [upsert_a_11]), (51, [upsert_a_12]), (200, [delete_all_msg])] debounced_client = 3"
    by simp
  from W n n' w s 1 2 3 4 show ?thesis by simp
qed


subsection \<open>Expiry\<close>

lemma next_due_NoneD: "next_due T ts = None \<Longrightarrow> t \<in> set ts \<Longrightarrow> T < fst t"
  by (induction ts) (auto split: option.splits if_splits)

lemma markers_fireTimeout:
  "markers (fireTimeout now t c) =
     (if expired now (updatedTime c (snd t)) (lifetime c)
      then AList.delete (snd t) (markers c) else markers c)"
  by (simp add: fireTimeout_def checkTime_def markers_removeMarker)

lemma updatedTime_fireTimeout:
  "updatedTime (fireTimeout now t c) =
     (if expired now (updatedTime c (snd t)) (lifetime c) \<and> lifetime c \<noteq> 0
      then (updatedTime c)(snd t := None) else updatedTime c)"
  by (simp add: fireTimeout_def checkTime_def updatedTime_removeMarker)

lemma timeouts_fireTimeout:
  "timeouts (fireTimeout now t c) =
     (if expired now (updatedTime c (snd t)) (lifetime c)
      then remove1 t (timeouts c) else remove1 t (timeouts c) @ [(now + 100, snd t)])"
  by (simp add: fireTimeout_def timeouts_checkTime)

lemma changes_fireTimeout:
  "changes (fireTimeout now t c) =
     (if expired now (updatedTime c (snd t)) (lifetime c) then Suc (changes c) else changes c)"
  by (simp add: fireTimeout_def checkTime_def)

lemma expired_None [simp]: "\<not> expired now None life"
  by (simp add: expired_def)

text \<open>
  A key without an update time is never evicted: its checks find \<^verbatim>\<open>NaN\<close> and start over.
\<close>

lemma untracked_fireTimeout:
  assumes "updatedTime c k = None"
  shows "updatedTime (fireTimeout now t c) k = None \<and>
         map_of (markers (fireTimeout now t c)) k = map_of (markers c) k"
proof (cases "snd t = k")
  case True
  with assms show ?thesis by (simp add: updatedTime_fireTimeout markers_fireTimeout)
next
  case False
  with assms show ?thesis by (simp add: updatedTime_fireTimeout markers_fireTimeout)
qed

lemma untracked_runTimeouts:
  assumes "updatedTime c k = None"
  shows "updatedTime (runTimeouts T c) k = None \<and>
         map_of (markers (runTimeouts T c)) k = map_of (markers c) k"
  by (rule runTimeouts_invariant
        [where P = "\<lambda>c'. updatedTime c' k = None \<and> map_of (markers c') k = map_of (markers c) k"])
     (simp_all add: assms untracked_fireTimeout)

lemma untracked_advance:
  assumes "updatedTime c k = None"
  shows "updatedTime (advance T c) k = None \<and>
         map_of (markers (advance T c)) k = map_of (markers c) k"
  using untracked_runTimeouts [of "fireDebounce T c" k T] assms by (simp add: advance_def)

text \<open>
  A key with an update time and a pending check is evicted by the first check that fires
  more than the lifetime after the update, at most 100 ms after the lifetime has passed.
\<close>

lemma pending_until_iff:
  "pending_until D k c = (\<exists>d. (d, k) \<in> set (timeouts c) \<and> d \<le> D)"
  by (force simp: pending_until_def)

lemma keys_fireTimeout_subset: "keys (fireTimeout now t c) \<subseteq> keys c"
  by (auto simp: keys_def markers_fireTimeout AList.delete_eq)

lemma tracked_fireTimeout:
  assumes L: "0 < lifetime c" and tr: "tracked t0 k c" and mem: "t \<in> set (timeouts c)"
  shows "tracked t0 k (fireTimeout (fst t) t c)"
proof -
  let ?c' = "fireTimeout (fst t) t c"
  have l': "lifetime ?c' = lifetime c" by simp
  from tr show ?thesis unfolding tracked_def
  proof
    assume "k \<notin> keys c \<and> updatedTime c k = None"
    with keys_fireTimeout_subset [of "fst t" t c] untracked_fireTimeout [of c k "fst t" t]
    show "(k \<notin> keys ?c' \<and> updatedTime ?c' k = None) \<or>
          (updatedTime ?c' k = Some t0 \<and> pending_until (t0 + int (lifetime ?c') + 100) k ?c')"
      by auto
  next
    assume a: "updatedTime c k = Some t0 \<and> pending_until (t0 + int (lifetime c) + 100) k c"
    then obtain d where d: "(d, k) \<in> set (timeouts c)" "d \<le> t0 + int (lifetime c) + 100"
      by (auto simp: pending_until_iff)
    show "(k \<notin> keys ?c' \<and> updatedTime ?c' k = None) \<or>
          (updatedTime ?c' k = Some t0 \<and> pending_until (t0 + int (lifetime ?c') + 100) k ?c')"
    proof (cases "expired (fst t) (updatedTime c (snd t)) (lifetime c)")
      case True
      show ?thesis
      proof (cases "snd t = k")
        case k: True
        with True L have "k \<notin> keys ?c'" "updatedTime ?c' k = None"
          by (auto simp: keys_def markers_fireTimeout updatedTime_fireTimeout AList.delete_eq)
        then show ?thesis by simp
      next
        case False
        with True a have u: "updatedTime ?c' k = Some t0"
          by (simp add: updatedTime_fireTimeout)
        from False have "(d, k) \<noteq> t" by auto
        with d True have "(d, k) \<in> set (timeouts ?c')"
          by (simp add: timeouts_fireTimeout)
        with d u show ?thesis by (auto simp: pending_until_iff)
      qed
    next
      case False
      with a have u: "updatedTime ?c' k = Some t0"
        by (simp add: updatedTime_fireTimeout)
      have "pending_until (t0 + int (lifetime c) + 100) k ?c'"
      proof (cases "(d, k) = t")
        case True
        with False a have "d - t0 \<le> int (lifetime c)"
          by (auto simp: expired_def)
        moreover from True False have "(d + 100, k) \<in> set (timeouts ?c')"
          by (auto simp: timeouts_fireTimeout)
        ultimately show ?thesis unfolding pending_until_iff
          by (intro exI [of _ "d + 100"]) simp
      next
        case ne: False
        with d False have "(d, k) \<in> set (timeouts ?c')"
          by (simp add: timeouts_fireTimeout)
        with d show ?thesis by (auto simp: pending_until_iff)
      qed
      with u show ?thesis by simp
    qed
  qed
qed

lemma tracked_runTimeouts:
  assumes L: "0 < lifetime c" and tr: "tracked t0 k c"
  shows "tracked t0 k (runTimeouts T c) \<and> lifetime (runTimeouts T c) = lifetime c"
proof (rule runTimeouts_invariant
    [where P = "\<lambda>c'. tracked t0 k c' \<and> lifetime c' = lifetime c"])
  show "tracked t0 k c \<and> lifetime c = lifetime c" using tr by simp
next
  fix c' t
  assume p: "tracked t0 k c' \<and> lifetime c' = lifetime c" and n: "next_due T (timeouts c') = Some t"
  from next_due_SomeD [OF n] have "t \<in> set (timeouts c')" by simp
  with p L have "tracked t0 k (fireTimeout (fst t) t c')"
    using tracked_fireTimeout [of c' t0 k t] by simp
  with p show "tracked t0 k (fireTimeout (fst t) t c') \<and> lifetime (fireTimeout (fst t) t c') = lifetime c"
    by simp
qed

lemma evicted_by:
  assumes L: "0 < lifetime c" and u: "updatedTime c k = Some t0"
    and p: "pending_until (t0 + int (lifetime c) + 100) k c"
    and T: "t0 + int (lifetime c) + 100 \<le> T"
  shows "k \<notin> keys (runTimeouts T c) \<and> updatedTime (runTimeouts T c) k = None"
proof -
  let ?c' = "runTimeouts T c"
  from u p have "tracked t0 k c" by (simp add: tracked_def)
  from tracked_runTimeouts [OF L this, of T]
  have tr: "tracked t0 k ?c'" and l: "lifetime ?c' = lifetime c" by simp_all
  have "\<not> pending_until (t0 + int (lifetime ?c') + 100) k ?c'"
  proof
    assume "pending_until (t0 + int (lifetime ?c') + 100) k ?c'"
    then obtain d where d: "(d, k) \<in> set (timeouts ?c')" "d \<le> t0 + int (lifetime c) + 100"
      by (auto simp: pending_until_iff)
    from next_due_NoneD [OF runTimeouts_done d(1)] have "T < d" by simp
    with d T show False by simp
  qed
  with tr show ?thesis by (auto simp: tracked_def)
qed

text \<open>
  While timeouts run, one \<^verbatim>\<open>change\<close> event is emitted for each eviction and none
  otherwise.
\<close>

lemma changes_runTimeouts:
  assumes L: "0 < lifetime c"
  shows "dom (updatedTime (runTimeouts T c)) \<subseteq> dom (updatedTime c) \<and>
         finite (evictions c (runTimeouts T c)) \<and>
         changes (runTimeouts T c) = changes c + card (evictions c (runTimeouts T c))"
proof (rule runTimeouts_invariant
    [where P = "\<lambda>c'. lifetime c' = lifetime c \<and> dom (updatedTime c') \<subseteq> dom (updatedTime c) \<and>
         finite (evictions c c') \<and> changes c' = changes c + card (evictions c c')", THEN conjunct2])
  show "lifetime c = lifetime c \<and> dom (updatedTime c) \<subseteq> dom (updatedTime c) \<and>
        finite (evictions c c) \<and> changes c = changes c + card (evictions c c)"
    by (simp add: evictions_def)
next
  fix c' t
  assume p: "lifetime c' = lifetime c \<and> dom (updatedTime c') \<subseteq> dom (updatedTime c) \<and>
         finite (evictions c c') \<and> changes c' = changes c + card (evictions c c')"
  let ?c'' = "fireTimeout (fst t) t c'"
  show "lifetime ?c'' = lifetime c \<and> dom (updatedTime ?c'') \<subseteq> dom (updatedTime c) \<and>
         finite (evictions c ?c'') \<and> changes ?c'' = changes c + card (evictions c ?c'')"
  proof (cases "expired (fst t) (updatedTime c' (snd t)) (lifetime c')")
    case True
    then have in_dom: "snd t \<in> dom (updatedTime c')"
      by (auto simp: expired_def split: option.splits)
    from True L p have u: "updatedTime ?c'' = (updatedTime c')(snd t := None)"
      by (simp add: updatedTime_fireTimeout)
    from in_dom p have ev: "evictions c ?c'' = insert (snd t) (evictions c c')"
      unfolding evictions_def u by auto
    from in_dom have "snd t \<notin> evictions c c'" by (simp add: evictions_def)
    with p have "card (evictions c ?c'') = Suc (card (evictions c c'))"
      unfolding ev by simp
    moreover from True have "changes ?c'' = Suc (changes c')" by (simp add: changes_fireTimeout)
    moreover from p have "dom (updatedTime ?c'') \<subseteq> dom (updatedTime c)"
      unfolding u by auto
    ultimately show ?thesis using p ev by simp
  next
    case False
    then have "updatedTime ?c'' = updatedTime c'" "changes ?c'' = changes c'"
      by (simp_all add: updatedTime_fireTimeout changes_fireTimeout)
    with p show ?thesis by (simp add: evictions_def)
  qed
qed


lemma frame_addMarker [simp]:
  "lifetime (addMarker mk k msg c) = lifetime c"
  "updatedTime (addMarker mk k msg c) = updatedTime c"
  "timeouts (addMarker mk k msg c) = timeouts c"
  "changes (addMarker mk k msg c) = changes c"
  "disposed (addMarker mk k msg c) = disposed c"
  "markers (addMarker mk k msg c) =
     AList.update k \<lparr>nid = nextNode c, frameID = frame_id msg, object = mk msg\<rparr> (markers c)"
  by (simp_all add: addMarker_def Let_def)

lemma evictions_fireDebounce [simp]: "evictions (fireDebounce T c) c' = evictions c c'"
  by (simp add: evictions_def)

lemma changes_advance:
  assumes "0 < lifetime c"
  shows "finite (evictions c (advance T c)) \<and>
         changes (advance T c) = changes c + card (evictions c (advance T c))"
  using changes_runTimeouts [of "fireDebounce T c" T] assms by (simp add: advance_def)

lemma evicted_by_advance:
  assumes "0 < lifetime c" "updatedTime c k = Some t0"
    "pending_until (t0 + int (lifetime c) + 100) k c" "t0 + int (lifetime c) + 100 \<le> T"
  shows "k \<notin> keys (advance T c) \<and> updatedTime (advance T c) k = None"
proof -
  have "pending_until (t0 + int (lifetime c) + 100) k (fireDebounce T c)"
    using assms(3) by (simp add: pending_until_iff)
  with assms evicted_by [of "fireDebounce T c" k t0 T] show ?thesis
    by (simp add: advance_def)
qed

text \<open>
  An \<^verbatim>\<open>UPSERT\<close> that adds a marker or updates it in place, with a lifetime \<open>L\<close> set: if
  no further message arrives and the timeouts are punctual, the marker is evicted by
  \<open>L + 100\<close> ms after the message, and the events emitted meanwhile are one per eviction.
\<close>

lemma upsert_tracked:
  assumes L: "0 < lifetime c" and a: "action msg = 0"
    and ok: "map_of (markers c) (key_of msg) = None \<or>
        (\<exists>node v'. map_of (markers c) (key_of msg) = Some node \<and> upd (object node) msg = Some v')"
  shows "key_of msg \<in> keys (forEach_body mk upd now msg c) \<and>
         updatedTime (forEach_body mk upd now msg c) (key_of msg) = Some now \<and>
         (now + 100, key_of msg) \<in> set (timeouts (forEach_body mk upd now msg c))"
proof -
  have k: "key_of msg \<in> keys (forEach_body mk upd now msg c)"
    using a by (simp add: keys_forEach_body replay_step_def)
  have t: "(now + 100, key_of msg) \<in> set (timeouts (forEach_body mk upd now msg c))"
    using L by (simp add: timeouts_forEach_body touch_eq)
  from ok have "updatedTime (forEach_body mk upd now msg c) (key_of msg) = Some now"
  proof
    assume "map_of (markers c) (key_of msg) = None"
    with a L show ?thesis by (simp add: forEach_body_add touch_eq)
  next
    assume "\<exists>node v'. map_of (markers c) (key_of msg) = Some node \<and> upd (object node) msg = Some v'"
    then obtain node v' where "map_of (markers c) (key_of msg) = Some node" "upd (object node) msg = Some v'"
      by blast
    with a L show ?thesis by (simp add: forEach_body_modify touch_eq)
  qed
  with k t show ?thesis by simp
qed

lemma upsert_evicted_in_time:
  assumes L: "0 < lifetime c" and a: "action msg = 0"
    and ok: "map_of (markers c) (key_of msg) = None \<or>
        (\<exists>node v'. map_of (markers c) (key_of msg) = Some node \<and> upd (object node) msg = Some v')"
    and T: "now + int (lifetime c) + 100 \<le> T"
  shows "key_of msg \<in> keys (forEach_body mk upd now msg c) \<and>
         key_of msg \<notin> keys (advance T (forEach_body mk upd now msg c)) \<and>
         key_of msg \<in> evictions (forEach_body mk upd now msg c)
                         (advance T (forEach_body mk upd now msg c)) \<and>
         changes (advance T (forEach_body mk upd now msg c)) =
           changes (forEach_body mk upd now msg c) +
           card (evictions (forEach_body mk upd now msg c)
                   (advance T (forEach_body mk upd now msg c)))"
proof -
  let ?c' = "forEach_body mk upd now msg c"
  from upsert_tracked [of c msg upd mk now] L a ok
  have k: "key_of msg \<in> keys ?c'" and u: "updatedTime ?c' (key_of msg) = Some now"
    and t: "(now + 100, key_of msg) \<in> set (timeouts ?c')" by simp_all
  have L': "0 < lifetime ?c'" using L by simp
  from t have p: "pending_until (now + int (lifetime ?c') + 100) (key_of msg) ?c'"
    unfolding pending_until_iff by (intro exI [of _ "now + 100"]) simp
  from T have T': "now + int (lifetime ?c') + 100 \<le> T" by simp
  from evicted_by_advance [OF L' u p T']
  have e: "key_of msg \<notin> keys (advance T ?c')" "updatedTime (advance T ?c') (key_of msg) = None"
    by simp_all
  from u e(2) have "key_of msg \<in> evictions ?c' (advance T ?c')"
    by (auto simp: evictions_def)
  with k e(1) changes_advance [OF L', of T] show ?thesis by simp
qed

subsection \<open>A marker that is destroyed and created again\<close>

lemma recreated_a11_eq:
  "recreated_a11 =
     \<lparr> lifetime = 150, debounceMs = 0, debounceTimer = None,
       markers = [(''a11'', \<lparr>nid = 1, frameID = ''map'', object = 7\<rparr>)],
       updatedTime = Map.empty,
       rootObject = [1], disposed = [0],
       timeouts = [(100, ''a11''), (110, ''a11'')],
       changes = 2,
       seen = [[(''a11'', \<lparr>nid = 0, frameID = ''map'', object = 7\<rparr>)],
               [(''a11'', \<lparr>nid = 1, frameID = ''map'', object = 7\<rparr>)]],
       warnings = [], nextNode = 2 \<rparr>"
  by (simp add: recreated_a11_def processMessage_def forEach_body_def Let_def key_upsert_a_11
      touch_eq addMarker_def removeMarker_def emit_def reject_def MarkerArrayClient_def
      upsert_a_11_fields)

text \<open>
  Claim C4 fails on the path that destroys and recreates a marker. The client has a
  lifetime of 150 ms and receives \<^verbatim>\<open>UPSERT\<close> \<open>(a, 11)\<close> at time 0 and again at time 10,
  where the update in place is rejected. \<^verbatim>\<open>removeMarker\<close> then deletes the update time
  that was just written, and the new marker gets none. At time 10 + 150 + 100 the marker
  is still in the registry, and no check has emitted an event.
\<close>

theorem recreated_marker_outlives_lifetime:
  "lifetime recreated_a11 = 150 \<and>
   ''a11'' \<in> keys (advance (10 + 150 + 100) recreated_a11) \<and>
   changes (advance (10 + 150 + 100) recreated_a11) = changes recreated_a11"
proof -
  have u: "updatedTime recreated_a11 ''a11'' = None" and l: "lifetime recreated_a11 = 150"
    and m: "map_of (markers recreated_a11) ''a11'' \<noteq> None"
    and d: "dom (updatedTime recreated_a11) = {}"
    by (simp_all add: recreated_a11_eq)
  from untracked_advance [OF u, of 260] m
  have "map_of (markers (advance 260 recreated_a11)) ''a11'' \<noteq> None" by simp
  then have k: "''a11'' \<in> keys (advance 260 recreated_a11)"
    by (simp add: keys_def map_of_eq_None_iff)
  from l have "0 < lifetime recreated_a11" by simp
  from changes_advance [OF this, of 260] d
  have "changes (advance 260 recreated_a11) = changes recreated_a11"
    by (simp add: evictions_def)
  with k l show ?thesis by simp
qed


lemma key_deprecated_a_11: "key_of deprecated_a_11 = ''a11''"
  by (simp add: key_of_def deprecated_a_11_def show_int_def show_nat.simps digit_def)

lemma other_fold_forEach:
  assumes "\<forall>m \<in> set msgs. key_of m \<noteq> k \<and> action m \<noteq> 3"
  shows "map_of (markers (fold (forEach_body mk upd now) msgs c)) k = map_of (markers c) k \<and>
         updatedTime (fold (forEach_body mk upd now) msgs c) k = updatedTime c k"
  using assms
  by (induction msgs arbitrary: c) (simp_all add: markers_other_key updatedTime_other_key)

lemma other_boundProcessMessage:
  assumes "\<forall>m \<in> set msgs. key_of m \<noteq> k \<and> action m \<noteq> 3"
  shows "map_of (markers (boundProcessMessage mk upd now msgs c)) k = map_of (markers c) k \<and>
         updatedTime (boundProcessMessage mk upd now msgs c) k = updatedTime c k"
  using other_fold_forEach [OF assms, of mk upd now c]
  by (simp add: boundProcessMessage_def debouncedProcessMessage_def processMessage_def)

lemma other_deliver_all:
  assumes "other_messages k evs" "updatedTime c k = None"
  shows "map_of (markers (deliver_all mk upd evs c)) k = map_of (markers c) k \<and>
         updatedTime (deliver_all mk upd evs c) k = None"
  using assms
proof (induction evs arbitrary: c)
  case Nil
  then show ?case by (simp add: deliver_all_def)
next
  case (Cons ev evs)
  from Cons.prems(1) have o: "\<forall>m \<in> set (snd ev). key_of m \<noteq> k \<and> action m \<noteq> 3"
    and os: "other_messages k evs"
    by (simp_all add: other_messages_def)
  let ?c' = "deliver mk upd ev c"
  from untracked_advance [OF Cons.prems(2), of "fst ev"]
    other_boundProcessMessage [OF o, of mk upd "fst ev" "advance (fst ev) c"]
  have 1: "map_of (markers ?c') k = map_of (markers c) k" "updatedTime ?c' k = None"
    by (simp_all add: deliver_def)
  from Cons.IH [OF os 1(2)] 1 show ?case by (simp add: deliver_all_def)
qed

text \<open>
  Claim C10, as the code has it. With a lifetime set, let an \<^verbatim>\<open>UPSERT\<close> arrive for a key
  that has a marker whose update in place fails. After the message the old node is
  disposed, the key holds a new node and has no update time. As long as no further message
  for that key and no \<^verbatim>\<open>DELETE_ALL\<close> is delivered, the new node stays in the registry and
  the key stays without update time, whatever other batches arrive and however much time
  passes.
\<close>

theorem recreated_marker_never_expires:
  assumes L: "0 < lifetime c" and a: "action msg = 0"
    and n: "map_of (markers c) (key_of msg) = Some node"
    and r: "upd (object node) msg = None"
  shows "map_of (markers (forEach_body mk upd now msg c)) (key_of msg)
           = Some \<lparr>nid = nextNode c, frameID = frame_id msg, object = mk msg\<rparr> \<and>
         nid node \<in> set (disposed (forEach_body mk upd now msg c)) \<and>
         updatedTime (forEach_body mk upd now msg c) (key_of msg) = None \<and>
         (\<forall>evs T. other_messages (key_of msg) evs \<longrightarrow>
            map_of (markers (advance T (deliver_all mk upd evs (forEach_body mk upd now msg c))))
                (key_of msg)
              = Some \<lparr>nid = nextNode c, frameID = frame_id msg, object = mk msg\<rparr> \<and>
            updatedTime (advance T (deliver_all mk upd evs (forEach_body mk upd now msg c)))
                (key_of msg) = None)"
proof -
  let ?k = "key_of msg"
  let ?c' = "forEach_body mk upd now msg c"
  let ?new = "\<lparr>nid = nextNode c, frameID = frame_id msg, object = mk msg\<rparr>"
  have c': "?c' = addMarker mk ?k msg (removeMarker ?k (touch now ?k c))"
    using a n r by (rule forEach_body_recreate)
  have m: "map_of (markers ?c') ?k = Some ?new"
    unfolding c' by (simp add: update_conv')
  have d: "nid node \<in> set (disposed ?c')"
    unfolding c' using n by (simp add: disposed_removeMarker)
  have u: "updatedTime ?c' ?k = None"
    unfolding c' using L by (simp add: updatedTime_removeMarker)
  have "map_of (markers (advance T (deliver_all mk upd evs ?c'))) ?k = Some ?new \<and>
        updatedTime (advance T (deliver_all mk upd evs ?c')) ?k = None"
    if "other_messages ?k evs" for evs T
  proof -
    from other_deliver_all [OF that u, of mk upd] m
    have 1: "map_of (markers (deliver_all mk upd evs ?c')) ?k = Some ?new"
      "updatedTime (deliver_all mk upd evs ?c') ?k = None" by simp_all
    from untracked_advance [OF 1(2), of T] 1(1) show ?thesis by simp
  qed
  with m d u show ?thesis by blast
qed

text \<open>
  The theorem at a client with a lifetime of 150 ms that holds \<open>(a, 11)\<close>, with a batch for
  another key afterwards.
\<close>

theorem recreated_marker_never_expires_witness:
  "0 < lifetime (client_a11 150) \<and> action upsert_a_11 = 0 \<and>
   map_of (markers (client_a11 150)) (key_of upsert_a_11)
     = Some \<lparr>nid = 0, frameID = ''map'', object = 7\<rparr> \<and>
   reject (object \<lparr>nid = 0, frameID = ''map'', object = 7\<rparr>) upsert_a_11 = None \<and>
   other_messages (key_of upsert_a_11) [(20, [upsert_a_12])] \<and>
   updatedTime (forEach_body payload reject 10 upsert_a_11 (client_a11 150)) (key_of upsert_a_11)
     = None \<and>
   map_of (markers (advance 100000
       (deliver_all payload reject [(20, [upsert_a_12])]
          (forEach_body payload reject 10 upsert_a_11 (client_a11 150))))) (key_of upsert_a_11)
     = Some \<lparr>nid = 1, frameID = ''map'', object = 7\<rparr>"
proof -
  have L: "0 < lifetime (client_a11 150)" and a: "action upsert_a_11 = 0"
    and n: "map_of (markers (client_a11 150)) (key_of upsert_a_11)
       = Some \<lparr>nid = 0, frameID = ''map'', object = 7\<rparr>"
    and x: "nextNode (client_a11 150) = 1"
    by (simp_all add: client_a11_eq upsert_a_11_fields key_upsert_a_11)
  have r: "reject (object \<lparr>nid = 0, frameID = ''map'', object = 7::nat\<rparr>) upsert_a_11 = None"
    by (simp add: reject_def)
  have "action upsert_a_12 = 0" by (simp add: upsert_a_12_def)
  then have o: "other_messages (key_of upsert_a_11) [(20, [upsert_a_12])]"
    by (simp add: other_messages_def key_upsert_a_11 key_upsert_a_12)
  note t = recreated_marker_never_expires
    [where c = "client_a11 150" and msg = upsert_a_11 and upd = reject and mk = payload
       and now = 10, OF L a n r]
  from t have 1: "updatedTime (forEach_body payload reject 10 upsert_a_11 (client_a11 150))
      (key_of upsert_a_11) = None" by blast
  from t o have "map_of (markers (advance 100000
       (deliver_all payload reject [(20, [upsert_a_12])]
          (forEach_body payload reject 10 upsert_a_11 (client_a11 150))))) (key_of upsert_a_11)
     = Some \<lparr>nid = nextNode (client_a11 150), frameID = frame_id upsert_a_11,
          object = payload upsert_a_11\<rparr>" by blast
  with L a n r o 1 x show ?thesis by (simp add: upsert_a_11_fields)
qed

text \<open>
  Claim C10 as stated fails in its last part: it is not only a further \<^verbatim>\<open>UPSERT\<close> that
  ends the state. After the marker was recreated, a deprecated message for its key at
  time 20 writes the update time again, and the checks evict the marker by time
  20 + 150 + 100 although no \<^verbatim>\<open>UPSERT\<close> has arrived.
\<close>

theorem deprecated_message_resumes_expiry:
  "0 < lifetime recreated_a11 \<and> ''a11'' \<in> keys recreated_a11 \<and>
   updatedTime recreated_a11 ''a11'' = None \<and>
   key_of deprecated_a_11 = ''a11'' \<and> action deprecated_a_11 = 1 \<and>
   ''a11'' \<in> keys (processMessage payload reject 20 [deprecated_a_11] recreated_a11) \<and>
   ''a11'' \<notin> keys (advance (20 + 150 + 100)
                  (processMessage payload reject 20 [deprecated_a_11] recreated_a11))"
proof -
  let ?c = "processMessage payload reject 20 [deprecated_a_11] recreated_a11"
  have a: "action deprecated_a_11 = 1" by (simp add: deprecated_a_11_def)
  have 0: "0 < lifetime recreated_a11" "''a11'' \<in> keys recreated_a11"
    "updatedTime recreated_a11 ''a11'' = None"
    by (simp_all add: recreated_a11_eq keys_def)
  have c: "?c = recreated_a11
      \<lparr>updatedTime := [''a11'' \<mapsto> 20],
       timeouts := [(100, ''a11''), (110, ''a11''), (120, ''a11'')],
       changes := 3, seen := seen recreated_a11 @ [markers recreated_a11],
       warnings := [DeprecatedAction]\<rparr>"
    by (simp add: processMessage_def forEach_body_skip a key_deprecated_a_11 touch_eq warn_def
        emit_def recreated_a11_eq)
  have L: "0 < lifetime ?c" and l: "lifetime ?c = 150" and u: "updatedTime ?c ''a11'' = Some 20"
    and k: "''a11'' \<in> keys ?c"
    unfolding c by (simp_all add: recreated_a11_eq keys_def)
  have "(100, ''a11'') \<in> set (timeouts ?c)" unfolding c by simp
  then have p: "pending_until (20 + int (lifetime ?c) + 100) ''a11'' ?c"
    unfolding pending_until_iff l by (intro exI [of _ 100]) simp
  have "20 + int (lifetime ?c) + 100 \<le> 20 + 150 + 100" unfolding l by simp
  from evicted_by_advance [OF L u p this] 0 a k show ?thesis
    by (simp add: key_deprecated_a_11)
qed


subsection \<open>Reachable states\<close>

text \<open>
  A new client is well formed, and so is every state it reaches by deliveries of batches
  and the passing of time. The theorems above that ask for distinct keys or distinct
  children of the root object therefore apply to every reachable state.
\<close>

lemma well_formed_MarkerArrayClient: "well_formed (MarkerArrayClient l d)"
  by (simp add: well_formed_def MarkerArrayClient_def)

lemma well_formed_cong:
  "markers c' = markers c \<Longrightarrow> rootObject c' = rootObject c \<Longrightarrow> nextNode c' = nextNode c \<Longrightarrow>
   well_formed c' = well_formed c"
  by (simp add: well_formed_def)

lemma well_formed_removeMarker: "well_formed c \<Longrightarrow> well_formed (removeMarker k c)"
  unfolding well_formed_def list_all_iff
  by (auto simp: markers_removeMarker rootObject_removeMarker distinct_delete
      split: option.splits dest: notin_set_remove1)

lemma well_formed_fold_removeMarker: "well_formed c \<Longrightarrow> well_formed (fold removeMarker ks c)"
  by (induction ks arbitrary: c) (simp_all add: well_formed_removeMarker)

lemma well_formed_addMarker: "well_formed c \<Longrightarrow> well_formed (addMarker mk k msg c)"
  unfolding well_formed_def list_all_iff
  by (auto simp: addMarker_def Let_def distinct_update)

lemma well_formed_forEach_body:
  assumes "well_formed c"
  shows "well_formed (forEach_body mk upd now msg c)"
proof -
  let ?k = "key_of msg"
  let ?c1 = "touch now ?k c"
  have t: "well_formed ?c1" using assms by (simp add: well_formed_cong [of ?c1 c])
  consider "action msg = 0" | "action msg = 2" | "action msg = 3"
    | "action msg \<noteq> 0" "action msg \<noteq> 2" "action msg \<noteq> 3" by blast
  then show ?thesis
  proof cases
    case 1
    show ?thesis
    proof (cases "map_of (markers c) ?k")
      case None
      with 1 t show ?thesis by (simp add: forEach_body_add well_formed_addMarker)
    next
      case (Some node)
      show ?thesis
      proof (cases "upd (object node) msg")
        case None
        with 1 Some t show ?thesis
          by (simp add: forEach_body_recreate well_formed_addMarker well_formed_removeMarker)
      next
        case (Some v')
        with 1 \<open>map_of (markers c) ?k = Some node\<close> assms show ?thesis
          by (simp add: forEach_body_modify well_formed_def distinct_update)
      qed
    qed
  next
    case 2
    with t show ?thesis by (simp add: forEach_body_delete well_formed_removeMarker)
  next
    case 3
    have "well_formed (fold removeMarker (map fst (markers c)) ?c1)"
      using t by (rule well_formed_fold_removeMarker)
    with 3 show ?thesis by (simp add: forEach_body_delete_all well_formed_def)
  next
    case 4
    have "well_formed (warn d ?c1)" for d
      using t by (simp add: well_formed_def warn_def)
    with 4 show ?thesis by (simp add: forEach_body_skip)
  qed
qed

lemma well_formed_processMessage:
  assumes "well_formed c"
  shows "well_formed (processMessage mk upd now msgs c)"
proof -
  have "well_formed (fold (forEach_body mk upd now) msgs c)"
    using assms by (induction msgs arbitrary: c) (simp_all add: well_formed_forEach_body)
  then show ?thesis
    by (simp add: processMessage_def well_formed_def emit_def)
qed

lemma well_formed_boundProcessMessage:
  "well_formed c \<Longrightarrow> well_formed (boundProcessMessage mk upd now msgs c)"
  using well_formed_processMessage [of c mk upd now msgs]
  by (simp add: boundProcessMessage_def debouncedProcessMessage_def well_formed_def)

lemma well_formed_fireTimeout: "well_formed c \<Longrightarrow> well_formed (fireTimeout now t c)"
  using well_formed_removeMarker [of "c\<lparr>timeouts := remove1 t (timeouts c)\<rparr>" "snd t"]
  by (simp add: fireTimeout_def checkTime_def well_formed_def emit_def)

lemma well_formed_fireDebounce: "well_formed c \<Longrightarrow> well_formed (fireDebounce T c)"
  by (simp add: well_formed_def fireDebounce_def split: option.splits)

lemma well_formed_advance: "well_formed c \<Longrightarrow> well_formed (advance T c)"
  unfolding advance_def
  by (rule runTimeouts_invariant [where P = well_formed])
     (simp_all add: well_formed_fireTimeout well_formed_fireDebounce)

lemma well_formed_deliver_all:
  "well_formed c \<Longrightarrow> well_formed (deliver_all mk upd evs c)"
  unfolding deliver_all_def
  by (induction evs arbitrary: c)
     (simp_all add: deliver_def well_formed_boundProcessMessage well_formed_advance)

end
